theory Spec2Isabelle
  imports Complex_Main "HOL-Library.AList"
begin

section \<open>CPM and PERT scheduling: a model of CPM\_PERT.py\<close>

text \<open>
  The script reads activity rows from a spreadsheet, derives the three-point statistics of
  every activity, builds a directed graph, runs a forward and a backward pass over a
  topological order of the graph, marks the critical activities and prints tables.

  Conventions of the model.
  \<^item> Python floats are modelled as exact reals: rounding is outside the model.
  \<^item> A Python \<open>dict\<close> keeps insertion order, so it is an association list; a key is
    stored with \<open>AList.update\<close> (an existing key keeps its position and gets the new
    value, a new key is appended) and read with \<open>map_of\<close>.
  \<^item> Every exception is a value of type \<open>error\<close>; a section that raises returns \<open>Inl\<close>.
  \<^item> Library calls are modelled by their documented behaviour: \<open>str.strip\<close>,
    \<open>str.split\<close>, \<open>networkx.DiGraph\<close>, \<open>statistics.variance\<close> and
    \<open>statistics.stdev\<close>. The order returned by \<open>networkx.topological_sort\<close> and the
    function \<open>scipy.stats.norm.cdf\<close> are parameters.
\<close>

subsection \<open>Exceptions\<close>

datatype error =
    AttributeError
  | KeyError string
  | NameError string
  | ValueError
  | StatisticsError
  | NetworkXError string
  | NetworkXUnfeasible

subsection \<open>Reading the activity rows (lines 11 to 28)\<close>

text \<open>
  A text cell of the spreadsheet is read by pandas as a \<open>str\<close>, an empty cell as the float
  \<open>nan\<close>. The columns \<open>A\<close>, \<open>M\<close> and \<open>B\<close> hold numbers.
\<close>

datatype cell = Str string | NaN

record row =
  col_Activity :: cell
  col_Precedent :: cell
  col_A :: real
  col_M :: real
  col_B :: real

record activity =
  optimistic :: real
  most_likely :: real
  pessimistic :: real
  predecessors :: "string list"

text \<open>The white space of \<open>str.isspace\<close> among the code points below 256.\<close>

definition isspace :: "char \<Rightarrow> bool" where
  "isspace c \<longleftrightarrow> c \<in> set [CHR 0x09, CHR 0x0A, CHR 0x0B, CHR 0x0C, CHR 0x0D,
      CHR 0x1C, CHR 0x1D, CHR 0x1E, CHR 0x1F, CHR 0x20, CHR 0x85, CHR 0xA0]"

definition strip :: "string \<Rightarrow> string" where
  "strip s = rev (dropWhile isspace (rev (dropWhile isspace s)))"

text \<open>\<open>s.split(',')\<close>: the pieces between commas; the empty string gives one empty piece.\<close>

fun split_comma :: "string \<Rightarrow> string list" where
  "split_comma [] = [[]]"
| "split_comma (c # cs) =
     (if c = CHR '','' then [] # split_comma cs
      else (case split_comma cs of
              [] \<Rightarrow> [[c]]
            | w # ws \<Rightarrow> (c # w) # ws))"

text \<open>\<open>str(cell)\<close>: a text cell is itself, the float \<open>nan\<close> prints as \<open>nan\<close>.\<close>

fun str_of_cell :: "cell \<Rightarrow> string" where
  "str_of_cell (Str s) = s"
| "str_of_cell NaN = ''nan''"

text \<open>Lines 16 and 17: the predecessor names of a row.\<close>

definition row_predecessors :: "row \<Rightarrow> string list" where
  "row_predecessors r =
     map strip (filter (\<lambda>p. strip p \<noteq> [] \<and> strip p \<noteq> ''nan'')
                       (split_comma (str_of_cell (col_Precedent r))))"

text \<open>Lines 22 to 27: the dictionary stored for a row.\<close>

definition row_activity :: "row \<Rightarrow> activity" where
  "row_activity r =
     \<lparr> optimistic = col_A r, most_likely = col_M r, pessimistic = col_B r,
       predecessors = row_predecessors r \<rparr>"

text \<open>
  The loop of lines 14 to 27 from a given state of \<open>activities\<close>. Calling \<open>strip\<close> on the
  float of an empty cell raises \<open>AttributeError\<close>.
\<close>

fun read_rows :: "row list \<Rightarrow> (string \<times> activity) list \<Rightarrow> error + (string \<times> activity) list" where
  "read_rows [] activities = Inr activities"
| "read_rows (r # rs) activities =
     (case col_Activity r of
        NaN \<Rightarrow> Inl AttributeError
      | Str s \<Rightarrow> read_rows rs (AList.update (strip s) (row_activity r) activities))"

definition read_activity_data :: "row list \<Rightarrow> error + (string \<times> activity) list" where
  "read_activity_data rows = read_rows rows []"

subsection \<open>Expected time, variance and standard deviation (lines 35 to 42)\<close>

record scheduled = activity +
  TE :: real
  variance :: real
  std_dev :: real

definition derive :: "activity \<Rightarrow> scheduled" where
  "derive a =
     (let opt = optimistic a; m = most_likely a; p = pessimistic a;
          te = (opt + 4 * m + p) / 6;
          variance_val = ((p - opt) / 6) ^ 2
      in activity.extend a (scheduled.fields te variance_val (sqrt variance_val)))"

definition derive_all :: "(string \<times> activity) list \<Rightarrow> (string \<times> scheduled) list" where
  "derive_all activities = map (\<lambda>(name, a). (name, derive a)) activities"

text \<open>
  The key under which a row is stored (line 15), and one step of the loop for a row whose
  name is text. Both are used to state what the loop computes.
\<close>

definition row_name :: "row \<Rightarrow> string" where
  "row_name r = (case col_Activity r of Str s \<Rightarrow> strip s | NaN \<Rightarrow> [])"

definition store_row :: "row \<Rightarrow> (string \<times> activity) list \<Rightarrow> (string \<times> activity) list" where
  "store_row r activities = AList.update (row_name r) (row_activity r) activities"

subsection \<open>The directed graph (lines 48 to 63)\<close>

text \<open>
  A \<open>networkx.DiGraph\<close> keeps its nodes in insertion order, each with a dictionary of
  attributes, and its edges in insertion order. The attributes of a node that was only ever
  named as a predecessor are all missing.
\<close>

record attrs =
  attr_duration :: "real option"
  attr_variance :: "real option"
  attr_std_dev :: "real option"

record 'a digraph =
  nodes :: "(string \<times> 'a) list"
  edges :: "(string \<times> string) list"

definition no_attrs :: attrs where
  "no_attrs = \<lparr> attr_duration = None, attr_variance = None, attr_std_dev = None \<rparr>"

text \<open>\<open>G.add_node(n, duration=.., variance=.., std_dev=..)\<close>: a new node is appended, an
  existing node gets the three attributes.\<close>

definition add_node :: "string \<Rightarrow> attrs \<Rightarrow> attrs digraph \<Rightarrow> attrs digraph" where
  "add_node n a G = G \<lparr> nodes := AList.update n a (nodes G) \<rparr>"

definition add_missing_node :: "string \<Rightarrow> (string \<times> attrs) list \<Rightarrow> (string \<times> attrs) list" where
  "add_missing_node n ns = (if n \<in> set (map fst ns) then ns else ns @ [(n, no_attrs)])"

text \<open>\<open>G.add_edge(u, v)\<close>: both ends become nodes if they are not yet, then the edge is
  stored once.\<close>

definition add_edge :: "string \<Rightarrow> string \<Rightarrow> attrs digraph \<Rightarrow> attrs digraph" where
  "add_edge u v G =
     \<lparr> nodes = add_missing_node v (add_missing_node u (nodes G)),
       edges = (if (u, v) \<in> set (edges G) then edges G else edges G @ [(u, v)]) \<rparr>"

text \<open>Lines 51 to 54, for one activity and for all of them.\<close>

definition add_activity :: "string \<times> scheduled \<Rightarrow> attrs digraph \<Rightarrow> attrs digraph" where
  "add_activity = (\<lambda>(name, d) G.
     fold (\<lambda>predecessor. add_edge predecessor name) (predecessors d)
       (add_node name
          \<lparr> attr_duration = Some (TE d), attr_variance = Some (variance d),
            attr_std_dev = Some (std_dev d) \<rparr> G))"

definition build_graph :: "(string \<times> scheduled) list \<Rightarrow> attrs digraph" where
  "build_graph activities = fold add_activity activities \<lparr> nodes = [], edges = [] \<rparr>"

text \<open>
  Lines 57 to 63 give every node the attributes it misses, with the value 0. After this loop
  every node has the three attributes, which the type \<open>node_data\<close> records.
\<close>

record node_data =
  duration :: real
  node_variance :: real
  node_std_dev :: real

definition or_zero :: "real option \<Rightarrow> real" where
  "or_zero v = (case v of None \<Rightarrow> 0 | Some x \<Rightarrow> x)"

definition fill_defaults :: "attrs digraph \<Rightarrow> node_data digraph" where
  "fill_defaults G =
     \<lparr> nodes = map (\<lambda>(n, a). (n, \<lparr> duration = or_zero (attr_duration a),
                                    node_variance = or_zero (attr_variance a),
                                    node_std_dev = or_zero (attr_std_dev a) \<rparr>)) (nodes G),
       edges = edges G \<rparr>"

definition G_predecessors :: "'a digraph \<Rightarrow> string \<Rightarrow> string list" where
  "G_predecessors G node = map fst (filter (\<lambda>(u, v). v = node) (edges G))"

definition G_successors :: "'a digraph \<Rightarrow> string \<Rightarrow> string list" where
  "G_successors G node = map snd (filter (\<lambda>(u, v). u = node) (edges G))"

subsection \<open>Topological orders\<close>

text \<open>
  \<open>before xs u v\<close>: in the list \<open>xs\<close> the element \<open>u\<close> occurs, and \<open>v\<close> occurs after its
  first occurrence. An order of the nodes is topological when it lists every node once and
  every edge goes forward. This is the contract of \<open>networkx.topological_sort\<close> on an
  acyclic graph; the passes below take the order as an argument.
\<close>

fun before :: "'a list \<Rightarrow> 'a \<Rightarrow> 'a \<Rightarrow> bool" where
  "before [] u v = False"
| "before (x # xs) u v = (if x = u then v \<in> set xs else before xs u v)"

definition topological :: "'a digraph \<Rightarrow> string list \<Rightarrow> bool" where
  "topological G order \<longleftrightarrow>
     distinct order \<and> set order = set (map fst (nodes G)) \<and>
     (\<forall>(u, v) \<in> set (edges G). before order u v)"

subsection \<open>Forward and backward pass (lines 66 to 81)\<close>

type_synonym dict = "(string \<times> real) list"

definition dict_get :: "dict \<Rightarrow> string \<Rightarrow> real \<Rightarrow> real" where
  "dict_get d k dflt = (case map_of d k of None \<Rightarrow> dflt | Some v \<Rightarrow> v)"

text \<open>\<open>max(xs, default=d)\<close> and \<open>min(xs, default=d)\<close> on a list.\<close>

definition max_default :: "real list \<Rightarrow> real \<Rightarrow> real" where
  "max_default xs d = (if xs = [] then d else Max (set xs))"

definition min_default :: "real list \<Rightarrow> real \<Rightarrow> real" where
  "min_default xs d = (if xs = [] then d else Min (set xs))"

text \<open>
  \<open>max(d, key=d.get)\<close> walks the keys of \<open>d\<close> in order and keeps the first key whose value
  is the largest; on an empty dictionary it raises \<open>ValueError\<close>. The value of a key under
  \<open>d.get\<close> is the value stored with it, so the walk is over the items.
\<close>

fun max_item :: "string \<times> real \<Rightarrow> dict \<Rightarrow> string \<times> real" where
  "max_item best [] = best"
| "max_item best (p # ps) = max_item (if snd best < snd p then p else best) ps"

definition max_key :: "dict \<Rightarrow> error + string" where
  "max_key d = (case d of [] \<Rightarrow> Inl ValueError | p # ps \<Rightarrow> Inr (fst (max_item p ps)))"

text \<open>\<open>earliest_finish[max(earliest_finish, key=earliest_finish.get)]\<close> (lines 78 and 88).\<close>

definition max_finish :: "dict \<Rightarrow> error + real" where
  "max_finish earliest_finish =
     (case max_key earliest_finish of
        Inl e \<Rightarrow> Inl e
      | Inr k \<Rightarrow> (case map_of earliest_finish k of
                    None \<Rightarrow> Inl (KeyError k)
                  | Some v \<Rightarrow> Inr v))"

text \<open>
  Lines 68 to 72, over the nodes in the given order, from a given state of the two
  dictionaries. Asking the graph for a node it does not have raises \<open>NetworkXError\<close>.
\<close>

fun forward_pass :: "node_data digraph \<Rightarrow> string list \<Rightarrow> dict \<times> dict \<Rightarrow> error + dict \<times> dict" where
  "forward_pass G [] (earliest_start, earliest_finish) = Inr (earliest_start, earliest_finish)"
| "forward_pass G (node # rest) (earliest_start, earliest_finish) =
     (case map_of (nodes G) node of
        None \<Rightarrow> Inl (NetworkXError node)
      | Some d \<Rightarrow>
          (let es = max_default (map (\<lambda>pred. dict_get earliest_finish pred 0)
                                     (G_predecessors G node)) 0;
               ef = es + duration d
           in forward_pass G rest
                (AList.update node es earliest_start, AList.update node ef earliest_finish)))"

text \<open>Lines 77 to 81, over the nodes in the given (already reversed) order.\<close>

fun backward_pass ::
  "node_data digraph \<Rightarrow> dict \<Rightarrow> string list \<Rightarrow> dict \<times> dict \<Rightarrow> error + dict \<times> dict" where
  "backward_pass G earliest_finish [] (latest_finish, latest_start) =
     Inr (latest_finish, latest_start)"
| "backward_pass G earliest_finish (node # rest) (latest_finish, latest_start) =
     (case map_of (nodes G) node of
        None \<Rightarrow> Inl (NetworkXError node)
      | Some d \<Rightarrow>
          (case max_finish earliest_finish of
             Inl e \<Rightarrow> Inl e
           | Inr total_dur \<Rightarrow>
               (let lf = min_default (map (\<lambda>succ. dict_get latest_start succ total_dur)
                                          (G_successors G node)) total_dur;
                    ls = lf - duration d
                in backward_pass G earliest_finish rest
                     (AList.update node lf latest_finish, AList.update node ls latest_start))))"

text \<open>Line 84: the nodes whose earliest and latest start are equal, in the order of the
  graph's nodes. Reading a missing key raises \<open>KeyError\<close>.\<close>

fun critical_nodes :: "string list \<Rightarrow> dict \<Rightarrow> dict \<Rightarrow> error + string list" where
  "critical_nodes [] earliest_start latest_start = Inr []"
| "critical_nodes (node # rest) earliest_start latest_start =
     (case map_of earliest_start node of
        None \<Rightarrow> Inl (KeyError node)
      | Some es \<Rightarrow>
          (case map_of latest_start node of
             None \<Rightarrow> Inl (KeyError node)
           | Some ls \<Rightarrow>
               (case critical_nodes rest earliest_start latest_start of
                  Inl e \<Rightarrow> Inl e
                | Inr cp \<Rightarrow> Inr (if es = ls then node # cp else cp))))"

record timing =
  earliest_start :: dict
  earliest_finish :: dict
  latest_start :: dict
  latest_finish :: dict
  critical_path :: "string list"
  critical_activities :: "(string \<times> bool) list"
  total_project_duration :: real

text \<open>
  Lines 66 to 88 on a graph and the order that \<open>networkx.topological_sort\<close> returned for
  it (the script asks for it twice, for the same graph).
\<close>

definition cpm :: "node_data digraph \<Rightarrow> string list \<Rightarrow> error + timing" where
  "cpm G order =
     (case forward_pass G order ([], []) of
        Inl e \<Rightarrow> Inl e
      | Inr (es, ef) \<Rightarrow>
          (case backward_pass G ef (rev order) ([], []) of
             Inl e \<Rightarrow> Inl e
           | Inr (lf, ls) \<Rightarrow>
               (case critical_nodes (map fst (nodes G)) es ls of
                  Inl e \<Rightarrow> Inl e
                | Inr cp \<Rightarrow>
                    (case max_finish ef of
                       Inl e \<Rightarrow> Inl e
                     | Inr total_dur \<Rightarrow>
                         Inr \<lparr> earliest_start = es, earliest_finish = ef,
                               latest_start = ls, latest_finish = lf,
                               critical_path = cp,
                               critical_activities =
                                 map (\<lambda>node. (node, node \<in> set cp)) (map fst (nodes G)),
                               total_project_duration = total_dur \<rparr>))))"

text \<open>The values of a node in the four dictionaries, when it has all of them.\<close>

definition window :: "timing \<Rightarrow> string \<Rightarrow> (real \<times> real \<times> real \<times> real) option" where
  "window t node =
     (case (map_of (earliest_start t) node, map_of (earliest_finish t) node,
            map_of (latest_start t) node, map_of (latest_finish t) node) of
        (Some es, Some ef, Some ls, Some lf) \<Rightarrow> Some (es, ef, ls, lf)
      | _ \<Rightarrow> None)"

subsection \<open>The CPM table (lines 91 to 102)\<close>

text \<open>
  One row per node of the graph: the node, the predecessors of the activity of that name,
  the four times (\<open>None\<close> where \<open>dict.get\<close> falls back to \<open>'N/A'\<close>) and the critical flag.
  \<open>activities[node]\<close> raises \<open>KeyError\<close> for a node that is no activity.
\<close>

type_synonym cpm_row =
  "string \<times> string list \<times> real option \<times> real option \<times> real option \<times> real option \<times> bool"

fun cpm_table_data ::
  "(string \<times> scheduled) list \<Rightarrow> timing \<Rightarrow> string list \<Rightarrow> error + cpm_row list" where
  "cpm_table_data activities t [] = Inr []"
| "cpm_table_data activities t (node # rest) =
     (case map_of activities node of
        None \<Rightarrow> Inl (KeyError node)
      | Some a \<Rightarrow>
          (case map_of (critical_activities t) node of
             None \<Rightarrow> Inl (KeyError node)
           | Some c \<Rightarrow>
               (case cpm_table_data activities t rest of
                  Inl e \<Rightarrow> Inl e
                | Inr table \<Rightarrow>
                    Inr ((node, predecessors a, map_of (earliest_start t) node,
                          map_of (earliest_finish t) node, map_of (latest_start t) node,
                          map_of (latest_finish t) node, c) # table))))"

subsection \<open>The PERT table (lines 116 to 135)\<close>

text \<open>
  Line 121 reads the global name \<open>total_standard_deviation\<close> in the condition of its
  conditional expression, before anything else on the line. The first argument of
  \<open>pert_table_data\<close> is what that name is bound to: \<open>None\<close> when it is unbound, and reading
  an unbound name raises \<open>NameError\<close>. A row is the activity, its z-score, its probability
  and its critical flag; \<open>cdf\<close> stands for \<open>scipy.stats.norm.cdf\<close>.
\<close>

type_synonym pert_row = "string \<times> real \<times> real \<times> bool"

fun pert_table_data ::
  "real option \<Rightarrow> (real \<Rightarrow> real) \<Rightarrow> timing \<Rightarrow> (string \<times> scheduled) list \<Rightarrow> error + pert_row list" where
  "pert_table_data tsd cdf t [] = Inr []"
| "pert_table_data tsd cdf t ((activity, a) # rest) =
     (case tsd of
        None \<Rightarrow> Inl (NameError ''total_standard_deviation'')
      | Some sd \<Rightarrow>
          (case (if 0 < sd
                 then (case map_of (earliest_finish t) activity of
                         None \<Rightarrow> Inl (KeyError activity)
                       | Some ef \<Rightarrow> Inr ((total_project_duration t - ef) / sd))
                 else Inr 0) of
             Inl e \<Rightarrow> Inl e
           | Inr z_score \<Rightarrow>
               (let probability = (if 0 < sd then cdf z_score else 0) in
                case map_of (critical_activities t) activity of
                  None \<Rightarrow> Inl (KeyError activity)
                | Some c \<Rightarrow>
                    (case pert_table_data tsd cdf t rest of
                       Inl e \<Rightarrow> Inl e
                     | Inr table \<Rightarrow> Inr ((activity, z_score, probability, c) # table)))))"

text \<open>No statement of the script assigns \<open>total_standard_deviation\<close>: when line 121 runs,
  the name is unbound.\<close>

definition total_standard_deviation :: "real option" where
  "total_standard_deviation = None"

subsection \<open>Statistics of chosen activities (lines 145 to 156)\<close>

text \<open>
  \<open>statistics.variance\<close> is the sample variance, the sum of the squared deviations from the
  mean over \<open>n - 1\<close>, and raises \<open>StatisticsError\<close> on fewer than two values;
  \<open>statistics.stdev\<close> is its square root.
\<close>

definition mean :: "real list \<Rightarrow> real" where
  "mean xs = sum_list xs / real (length xs)"

definition calc_variance :: "real list \<Rightarrow> error + real" where
  "calc_variance xs =
     (if length xs < 2 then Inl StatisticsError
      else Inr (sum_list (map (\<lambda>x. (x - mean xs) ^ 2) xs) / real (length xs - 1)))"

definition calc_stdev :: "real list \<Rightarrow> error + real" where
  "calc_stdev xs = (case calc_variance xs of Inl e \<Rightarrow> Inl e | Inr v \<Rightarrow> Inr (sqrt v))"

text \<open>Line 148: the expected times of the chosen names that are activities, in the order
  of the chosen names.\<close>

definition specific_durations :: "(string \<times> scheduled) list \<Rightarrow> string list \<Rightarrow> real list" where
  "specific_durations activities names =
     List.map_filter (\<lambda>activity. map_option TE (map_of activities activity)) names"

text \<open>Lines 151 to 156: the pair of \<open>specific_variance\<close> and \<open>specific_std_dev\<close>.\<close>

definition specific_stats :: "(string \<times> scheduled) list \<Rightarrow> string list \<Rightarrow> error + real \<times> real" where
  "specific_stats activities names =
     (let ds = specific_durations activities names in
      if 1 < length ds
      then (case calc_variance ds of
              Inl e \<Rightarrow> Inl e
            | Inr v \<Rightarrow> (case calc_stdev ds of Inl e \<Rightarrow> Inl e | Inr s \<Rightarrow> Inr (v, s)))
      else Inr (0, 0))"

definition specific_activities :: "string list" where
  "specific_activities = [''A'', ''B'', ''C'', ''D'']"

subsection \<open>The whole script\<close>

text \<open>
  The sections in the order the script runs them. \<open>topological_sort\<close> stands for
  \<open>networkx.topological_sort\<close>, which raises \<open>NetworkXUnfeasible\<close> on a graph with a cycle.
\<close>

definition main ::
  "(node_data digraph \<Rightarrow> error + string list) \<Rightarrow> (real \<Rightarrow> real) \<Rightarrow> row list \<Rightarrow>
   error + cpm_row list \<times> pert_row list \<times> real \<times> real" where
  "main topological_sort cdf rows =
     (case read_activity_data rows of
        Inl e \<Rightarrow> Inl e
      | Inr raw \<Rightarrow>
          (let activities = derive_all raw;
               G = fill_defaults (build_graph activities)
           in case topological_sort G of
                Inl e \<Rightarrow> Inl e
              | Inr order \<Rightarrow>
                  (case cpm G order of
                     Inl e \<Rightarrow> Inl e
                   | Inr t \<Rightarrow>
                       (case cpm_table_data activities t (map fst (nodes G)) of
                          Inl e \<Rightarrow> Inl e
                        | Inr cpm_table \<Rightarrow>
                            (case pert_table_data total_standard_deviation cdf t activities of
                               Inl e \<Rightarrow> Inl e
                             | Inr pert_table \<Rightarrow>
                                 (case specific_stats activities specific_activities of
                                    Inl e \<Rightarrow> Inl e
                                  | Inr sv \<Rightarrow> Inr (cpm_table, pert_table, sv)))))))"

subsection \<open>Example inputs\<close>

text \<open>Three activities: A (1, 2, 3), B (2, 4, 6) after A, and C (1, 1, 1) after A.\<close>

definition ex_rows :: "row list" where
  "ex_rows =
     [\<lparr> col_Activity = Str ''A'', col_Precedent = NaN, col_A = 1, col_M = 2, col_B = 3 \<rparr>,
      \<lparr> col_Activity = Str ''B'', col_Precedent = Str ''A'', col_A = 2, col_M = 4, col_B = 6 \<rparr>,
      \<lparr> col_Activity = Str ''C'', col_Precedent = Str '' A '', col_A = 1, col_M = 1, col_B = 1 \<rparr>]"

definition ex_graph :: "node_data digraph" where
  "ex_graph =
     \<lparr> nodes = [(''A'', \<lparr> duration = 2, node_variance = 1 / 9, node_std_dev = 1 / 3 \<rparr>),
                (''B'', \<lparr> duration = 4, node_variance = 4 / 9, node_std_dev = 2 / 3 \<rparr>),
                (''C'', \<lparr> duration = 1, node_variance = 0, node_std_dev = 0 \<rparr>)],
       edges = [(''A'', ''B''), (''A'', ''C'')] \<rparr>"

definition ex_timing :: timing where
  "ex_timing =
     \<lparr> earliest_start = [(''A'', 0), (''B'', 2), (''C'', 2)],
       earliest_finish = [(''A'', 2), (''B'', 6), (''C'', 3)],
       latest_start = [(''C'', 5), (''B'', 2), (''A'', 0)],
       latest_finish = [(''C'', 6), (''B'', 6), (''A'', 2)],
       critical_path = [''A'', ''B''],
       critical_activities = [(''A'', True), (''B'', True), (''C'', False)],
       total_project_duration = 6 \<rparr>"

definition ex_activities :: "(string \<times> scheduled) list" where
  "ex_activities =
     [(''A'', \<lparr> optimistic = 1, most_likely = 2, pessimistic = 3, predecessors = [],
               TE = 2, variance = 1 / 9, std_dev = 1 / 3 \<rparr>),
      (''B'', \<lparr> optimistic = 2, most_likely = 4, pessimistic = 6, predecessors = [''A''],
               TE = 4, variance = 4 / 9, std_dev = 2 / 3 \<rparr>),
      (''C'', \<lparr> optimistic = 1, most_likely = 1, pessimistic = 1, predecessors = [''A''],
               TE = 1, variance = 0, std_dev = 0 \<rparr>)]"

text \<open>One activity A (1, 1, 1) without predecessors, and its timing.\<close>

definition one_activities :: "(string \<times> scheduled) list" where
  "one_activities =
     [(''A'', \<lparr> optimistic = 1, most_likely = 1, pessimistic = 1, predecessors = [],
               TE = 1, variance = 0, std_dev = 0 \<rparr>)]"

definition one_timing :: timing where
  "one_timing =
     \<lparr> earliest_start = [(''A'', 0)], earliest_finish = [(''A'', 1)],
       latest_start = [(''A'', 0)], latest_finish = [(''A'', 1)],
       critical_path = [''A''], critical_activities = [(''A'', True)],
       total_project_duration = 1 \<rparr>"



definition tol_graph :: "node_data digraph" where
  "tol_graph =
     \<lparr> nodes = [(''A'', \<lparr> duration = 1, node_variance = 0, node_std_dev = 0 \<rparr>),
                (''B'', \<lparr> duration = 1 + 1 / 10000000000, node_variance = 0, node_std_dev = 0 \<rparr>)],
       edges = [] \<rparr>"

text \<open>One activity B (2, 4, 6) that names a predecessor A which is no activity.\<close>

definition lone_rows :: "row list" where
  "lone_rows =
     [\<lparr> col_Activity = Str ''B'', col_Precedent = Str ''A'', col_A = 2, col_M = 4, col_B = 6 \<rparr>]"

definition lone_activities :: "(string \<times> scheduled) list" where
  "lone_activities =
     [(''B'', \<lparr> optimistic = 2, most_likely = 4, pessimistic = 6, predecessors = [''A''],
               TE = 4, variance = 4 / 9, std_dev = 2 / 3 \<rparr>)]"

definition lone_graph :: "node_data digraph" where
  "lone_graph =
     \<lparr> nodes = [(''B'', \<lparr> duration = 4, node_variance = 4 / 9, node_std_dev = 2 / 3 \<rparr>),
                (''A'', \<lparr> duration = 0, node_variance = 0, node_std_dev = 0 \<rparr>)],
       edges = [(''A'', ''B'')] \<rparr>"



definition tol_rows :: "row list" where
  "tol_rows =
     [\<lparr> col_Activity = Str ''A'', col_Precedent = NaN, col_A = 1, col_M = 1, col_B = 1 \<rparr>,
      \<lparr> col_Activity = Str ''B'', col_Precedent = NaN, col_A = 1 + 1 / 10000000000,
        col_M = 1 + 1 / 10000000000, col_B = 1 + 1 / 10000000000 \<rparr>]"

section \<open>Properties\<close>

subsection \<open>Orders, the largest item, and the two passes\<close>


lemma before_in2: "before xs u v \<Longrightarrow> v \<in> set xs"
  by (induction xs) (auto split: if_splits)

lemma before_pred_in_prefix:
  "distinct (pre @ x # rest) \<Longrightarrow> before (pre @ x # rest) p x \<Longrightarrow> p \<in> set pre"
  by (induction pre) (auto split: if_splits dest: before_in2)

lemma before_succ_in_suffix:
  "distinct (pre @ x # post) \<Longrightarrow> before (pre @ x # post) x s \<Longrightarrow> s \<in> set post"
  by (induction pre) (auto split: if_splits)

lemma in_G_predecessors: "p \<in> set (G_predecessors G n) \<longleftrightarrow> (p, n) \<in> set (edges G)"
  by (force simp: G_predecessors_def)

lemma in_G_successors: "s \<in> set (G_successors G n) \<longleftrightarrow> (n, s) \<in> set (edges G)"
  by (force simp: G_successors_def)

lemma max_item_mem: "max_item b ps \<in> set (b # ps)"
  by (induction ps arbitrary: b) (auto split: if_splits)

lemma max_item_ge_best: "snd b \<le> snd (max_item b ps)"
proof (induction ps arbitrary: b)
  case Nil
  show ?case by simp
next
  case (Cons q ps)
  have "snd b \<le> snd (if snd b < snd q then q else b)" by simp
  also have "\<dots> \<le> snd (max_item (if snd b < snd q then q else b) ps)" by (rule Cons.IH)
  finally show ?case by simp
qed

lemma max_item_ge: "p \<in> set ps \<Longrightarrow> snd p \<le> snd (max_item b ps)"
proof (induction ps arbitrary: b)
  case Nil
  then show ?case by simp
next
  case (Cons q ps)
  let ?b = "if snd b < snd q then q else b"
  show ?case
  proof (cases "p = q")
    case True
    have "snd q \<le> snd ?b" by simp
    also have "\<dots> \<le> snd (max_item ?b ps)" by (rule max_item_ge_best)
    finally show ?thesis using True by simp
  next
    case False
    with Cons.prems have "p \<in> set ps" by simp
    then have "snd p \<le> snd (max_item ?b ps)" by (rule Cons.IH)
    then show ?thesis by simp
  qed
qed

lemma max_finish_Max:
  assumes "d \<noteq> []" and "distinct (map fst d)"
  shows "max_finish d = Inr (Max (snd ` set d))"
proof -
  from assms(1) obtain p ps where d: "d = p # ps" by (cases d) auto
  let ?m = "max_item p ps"
  have mem: "?m \<in> set d" using max_item_mem [of p ps] d by simp
  have ge: "\<And>q. q \<in> set d \<Longrightarrow> snd q \<le> snd ?m"
    using max_item_ge [of _ ps p] max_item_ge_best [of p ps] d by auto
  have "Max (snd ` set d) = snd ?m"
    by (rule Max_eqI) (use mem ge in auto)
  moreover have "map_of d (fst ?m) = Some (snd ?m)"
    using assms(2) mem by (intro map_of_is_SomeI) auto
  moreover have "max_key d = Inr (fst ?m)" by (simp add: max_key_def d)
  ultimately show ?thesis by (simp add: max_finish_def)
qed

lemma forward_pass_Inr:
  "\<forall>n\<in>set xs. map_of (nodes G) n \<noteq> None \<Longrightarrow> \<exists>es ef. forward_pass G xs (es0, ef0) = Inr (es, ef)"
  by (induction xs arbitrary: es0 ef0) (auto simp: Let_def split: option.splits)

lemma forward_pass_keys:
  "forward_pass G xs (es0, ef0) = Inr (es, ef) \<Longrightarrow>
   fst ` set es = fst ` set es0 \<union> set xs \<and> fst ` set ef = fst ` set ef0 \<union> set xs"
proof (induction xs arbitrary: es0 ef0)
  case Nil
  then show ?case by simp
next
  case (Cons x xs)
  from Cons.prems obtain d where d: "map_of (nodes G) x = Some d"
    by (auto split: option.splits)
  let ?e = "max_default (map (\<lambda>pred. dict_get ef0 pred 0) (G_predecessors G x)) 0"
  from Cons.prems d have "forward_pass G xs (AList.update x ?e es0, AList.update x (?e + duration d) ef0) = Inr (es, ef)"
    by (simp add: Let_def)
  from Cons.IH [OF this] show ?case by (auto simp: dom_update)
qed

lemma forward_pass_distinct:
  "forward_pass G xs (es0, ef0) = Inr (es, ef) \<Longrightarrow> distinct (map fst es0) \<Longrightarrow> distinct (map fst ef0) \<Longrightarrow>
   distinct (map fst es) \<and> distinct (map fst ef)"
proof (induction xs arbitrary: es0 ef0)
  case Nil
  then show ?case by simp
next
  case (Cons x xs)
  from Cons.prems obtain d where d: "map_of (nodes G) x = Some d"
    by (auto split: option.splits)
  let ?e = "max_default (map (\<lambda>pred. dict_get ef0 pred 0) (G_predecessors G x)) 0"
  from Cons.prems d have "forward_pass G xs (AList.update x ?e es0, AList.update x (?e + duration d) ef0) = Inr (es, ef)"
    by (simp add: Let_def)
  from Cons.IH [OF this] Cons.prems(2,3) show ?case by (simp add: distinct_update)
qed

lemma forward_pass_frame:
  "forward_pass G xs (es0, ef0) = Inr (es, ef) \<Longrightarrow> k \<notin> set xs \<Longrightarrow>
   map_of es k = map_of es0 k \<and> map_of ef k = map_of ef0 k"
proof (induction xs arbitrary: es0 ef0)
  case Nil
  then show ?case by simp
next
  case (Cons x xs)
  from Cons.prems obtain d where d: "map_of (nodes G) x = Some d"
    by (auto split: option.splits)
  let ?e = "max_default (map (\<lambda>pred. dict_get ef0 pred 0) (G_predecessors G x)) 0"
  from Cons.prems d have "forward_pass G xs (AList.update x ?e es0, AList.update x (?e + duration d) ef0) = Inr (es, ef)"
    by (simp add: Let_def)
  from Cons.IH [OF this] Cons.prems(2) show ?case by (simp add: update_conv')
qed

lemma forward_pass_spec:
  assumes "forward_pass G xs (es0, ef0) = Inr (es, ef)"
    and "distinct (pre @ xs)"
    and "\<forall>(u, v)\<in>set (edges G). before (pre @ xs) u v"
  shows "\<forall>n\<in>set xs. \<exists>d. map_of (nodes G) n = Some d
           \<and> map_of es n = Some (max_default (map (\<lambda>p. dict_get ef p 0) (G_predecessors G n)) 0)
           \<and> map_of ef n = Some (max_default (map (\<lambda>p. dict_get ef p 0) (G_predecessors G n)) 0 + duration d)"
  using assms
proof (induction xs arbitrary: pre es0 ef0)
  case Nil
  then show ?case by simp
next
  case (Cons x xs)
  from Cons.prems(1) obtain d where d: "map_of (nodes G) x = Some d"
    by (auto split: option.splits)
  let ?e = "max_default (map (\<lambda>pred. dict_get ef0 pred 0) (G_predecessors G x)) 0"
  let ?es1 = "AList.update x ?e es0" and ?ef1 = "AList.update x (?e + duration d) ef0"
  from Cons.prems(1) d have rest: "forward_pass G xs (?es1, ?ef1) = Inr (es, ef)"
    by (simp add: Let_def)
  have dist: "distinct ((pre @ [x]) @ xs)" using Cons.prems(2) by simp
  have bef: "\<forall>(u, v)\<in>set (edges G). before ((pre @ [x]) @ xs) u v" using Cons.prems(3) by simp
  have tail: "\<forall>n\<in>set xs. \<exists>d. map_of (nodes G) n = Some d
           \<and> map_of es n = Some (max_default (map (\<lambda>p. dict_get ef p 0) (G_predecessors G n)) 0)
           \<and> map_of ef n = Some (max_default (map (\<lambda>p. dict_get ef p 0) (G_predecessors G n)) 0 + duration d)"
    by (rule Cons.IH [OF rest dist bef])
  have xnot: "x \<notin> set xs" using Cons.prems(2) by simp
  have fx: "map_of es x = Some ?e" "map_of ef x = Some (?e + duration d)"
    using forward_pass_frame [OF rest xnot] by (simp_all add: update_conv')
  have same: "dict_get ef p 0 = dict_get ef0 p 0" if "p \<in> set (G_predecessors G x)" for p
  proof -
    from that have "(p, x) \<in> set (edges G)" by (simp add: in_G_predecessors)
    with Cons.prems(3) have "before (pre @ x # xs) p x" by auto
    with Cons.prems(2) have "p \<in> set pre" by (rule before_pred_in_prefix)
    with Cons.prems(2) have "p \<notin> set xs" "p \<noteq> x" by auto
    then have "map_of ef p = map_of ef0 p"
      using forward_pass_frame [OF rest, of p] by (simp add: update_conv')
    then show ?thesis by (simp add: dict_get_def)
  qed
  have meq: "map (\<lambda>p. dict_get ef0 p 0) (G_predecessors G x) = map (\<lambda>p. dict_get ef p 0) (G_predecessors G x)"
    by (rule map_cong) (simp_all add: same)
  from fx d have "\<exists>d. map_of (nodes G) x = Some d
           \<and> map_of es x = Some (max_default (map (\<lambda>p. dict_get ef p 0) (G_predecessors G x)) 0)
           \<and> map_of ef x = Some (max_default (map (\<lambda>p. dict_get ef p 0) (G_predecessors G x)) 0 + duration d)"
    unfolding meq by simp
  with tail show ?case by simp
qed

lemma backward_pass_Inr:
  "\<forall>n\<in>set xs. map_of (nodes G) n \<noteq> None \<Longrightarrow> max_finish ef = Inr T \<Longrightarrow>
   \<exists>lf ls. backward_pass G ef xs (lf0, ls0) = Inr (lf, ls)"
  by (induction xs arbitrary: lf0 ls0) (auto simp: Let_def split: option.splits)

lemma backward_pass_step:
  assumes "backward_pass G ef (x # xs) (lf0, ls0) = Inr (lf, ls)"
  shows "\<exists>d T. map_of (nodes G) x = Some d \<and> max_finish ef = Inr T \<and>
    backward_pass G ef xs
           (AList.update x (min_default (map (\<lambda>s. dict_get ls0 s T) (G_successors G x)) T) lf0,
            AList.update x (min_default (map (\<lambda>s. dict_get ls0 s T) (G_successors G x)) T - duration d) ls0)
         = Inr (lf, ls)"
  using assms by (auto simp: Let_def split: option.splits sum.splits)

lemma backward_pass_keys:
  "backward_pass G ef xs (lf0, ls0) = Inr (lf, ls) \<Longrightarrow>
   fst ` set lf = fst ` set lf0 \<union> set xs \<and> fst ` set ls = fst ` set ls0 \<union> set xs"
proof (induction xs arbitrary: lf0 ls0)
  case Nil
  then show ?case by simp
next
  case (Cons x xs)
  from backward_pass_step [OF Cons.prems(1)] obtain d :: node_data and T where
    "backward_pass G ef xs
           (AList.update x (min_default (map (\<lambda>s. dict_get ls0 s T) (G_successors G x)) T) lf0,
            AList.update x (min_default (map (\<lambda>s. dict_get ls0 s T) (G_successors G x)) T - duration d) ls0)
         = Inr (lf, ls)" by auto
  from Cons.IH [OF this] show ?case by (auto simp: dom_update)
qed

lemma backward_pass_frame:
  "backward_pass G ef xs (lf0, ls0) = Inr (lf, ls) \<Longrightarrow> k \<notin> set xs \<Longrightarrow>
   map_of lf k = map_of lf0 k \<and> map_of ls k = map_of ls0 k"
proof (induction xs arbitrary: lf0 ls0)
  case Nil
  then show ?case by simp
next
  case (Cons x xs)
  from backward_pass_step [OF Cons.prems(1)] obtain d :: node_data and T where
    "backward_pass G ef xs
           (AList.update x (min_default (map (\<lambda>s. dict_get ls0 s T) (G_successors G x)) T) lf0,
            AList.update x (min_default (map (\<lambda>s. dict_get ls0 s T) (G_successors G x)) T - duration d) ls0)
         = Inr (lf, ls)" by auto
  from Cons.IH [OF this] Cons.prems(2) show ?case by (simp add: update_conv')
qed

lemma backward_pass_spec:
  assumes "backward_pass G ef (rev xs) (lf0, ls0) = Inr (lf, ls)"
    and "distinct (xs @ post)"
    and "\<forall>(u, v)\<in>set (edges G). before (xs @ post) u v"
    and "max_finish ef = Inr T"
  shows "\<forall>n\<in>set xs. \<exists>d. map_of (nodes G) n = Some d
           \<and> map_of lf n = Some (min_default (map (\<lambda>s. dict_get ls s T) (G_successors G n)) T)
           \<and> map_of ls n = Some (min_default (map (\<lambda>s. dict_get ls s T) (G_successors G n)) T - duration d)"
  using assms(1-3)
proof (induction xs arbitrary: post lf0 ls0 rule: rev_induct)
  case Nil
  then show ?case by simp
next
  case (snoc x xs)
  from snoc.prems(1) have run: "backward_pass G ef (x # rev xs) (lf0, ls0) = Inr (lf, ls)" by simp
  let ?l = "min_default (map (\<lambda>s. dict_get ls0 s T) (G_successors G x)) T"
  from backward_pass_step [OF run] assms(4) obtain d where d: "map_of (nodes G) x = Some d"
    and rest: "backward_pass G ef (rev xs) (AList.update x ?l lf0, AList.update x (?l - duration d) ls0) = Inr (lf, ls)"
    by auto
  have dist: "distinct (xs @ x # post)" using snoc.prems(2) by simp
  have bef: "\<forall>(u, v)\<in>set (edges G). before (xs @ x # post) u v" using snoc.prems(3) by simp
  have tail: "\<forall>n\<in>set xs. \<exists>d. map_of (nodes G) n = Some d
           \<and> map_of lf n = Some (min_default (map (\<lambda>s. dict_get ls s T) (G_successors G n)) T)
           \<and> map_of ls n = Some (min_default (map (\<lambda>s. dict_get ls s T) (G_successors G n)) T - duration d)"
    by (rule snoc.IH [OF rest dist bef])
  have xnot: "x \<notin> set (rev xs)" using snoc.prems(2) by simp
  have fx: "map_of lf x = Some ?l" "map_of ls x = Some (?l - duration d)"
    using backward_pass_frame [OF rest xnot] by (simp_all add: update_conv')
  have same: "dict_get ls s T = dict_get ls0 s T" if "s \<in> set (G_successors G x)" for s
  proof -
    from that have "(x, s) \<in> set (edges G)" by (simp add: in_G_successors)
    with bef have "before (xs @ x # post) x s" by auto
    with dist have "s \<in> set post" by (rule before_succ_in_suffix)
    with dist have "s \<notin> set (rev xs)" "s \<noteq> x" by auto
    then have "map_of ls s = map_of ls0 s"
      using backward_pass_frame [OF rest, of s] by (simp add: update_conv')
    then show ?thesis by (simp add: dict_get_def)
  qed
  have meq: "map (\<lambda>s. dict_get ls0 s T) (G_successors G x) = map (\<lambda>s. dict_get ls s T) (G_successors G x)"
    by (rule map_cong) (simp_all add: same)
  from fx d have "\<exists>d. map_of (nodes G) x = Some d
           \<and> map_of lf x = Some (min_default (map (\<lambda>s. dict_get ls s T) (G_successors G x)) T)
           \<and> map_of ls x = Some (min_default (map (\<lambda>s. dict_get ls s T) (G_successors G x)) T - duration d)"
    unfolding meq by simp
  with tail show ?case by simp
qed

lemma critical_nodes_filter:
  "\<forall>n\<in>set ns. map_of es n \<noteq> None \<and> map_of ls n \<noteq> None \<Longrightarrow>
   critical_nodes ns es ls = Inr (filter (\<lambda>n. map_of es n = map_of ls n) ns)"
  by (induction ns) (auto split: option.splits)

subsection \<open>Reading the rows\<close>

lemmas ingest_defs = read_activity_data_def row_activity_def row_predecessors_def strip_def isspace_def

lemma read_rows_fold:
  "\<forall>r\<in>set rows. col_Activity r \<noteq> NaN \<Longrightarrow>
   read_rows rows acts = Inr (fold store_row rows acts)"
  by (induction rows arbitrary: acts) (auto simp: row_name_def store_row_def split: cell.splits)

lemma fold_store_keys:
  "fst ` set (fold store_row rows acts) = fst ` set acts \<union> row_name ` set rows"
  by (induction rows arbitrary: acts) (auto simp: store_row_def dom_update)

lemma fold_store_distinct:
  "distinct (map fst acts) \<Longrightarrow> distinct (map fst (fold store_row rows acts))"
  by (induction rows arbitrary: acts) (auto simp: store_row_def distinct_update)

lemma fold_store_other:
  "\<forall>r\<in>set rows. row_name r \<noteq> k \<Longrightarrow> map_of (fold store_row rows acts) k = map_of acts k"
  by (induction rows arbitrary: acts) (auto simp: store_row_def update_conv')

lemma fold_store_last:
  "\<forall>r\<in>set post. row_name r \<noteq> row_name r2 \<Longrightarrow>
   map_of (fold store_row (pre @ r2 # post) acts) (row_name r2) = Some (row_activity r2)"
  by (simp add: fold_store_other) (simp add: store_row_def update_conv')

lemma distinct_keys_count:
  "distinct (map fst al) \<Longrightarrow> map_of al k = Some v \<Longrightarrow> length (filter (\<lambda>(k', a). k' = k) al) = 1"
proof (induction al)
  case Nil
  then show ?case by simp
next
  case (Cons p al)
  obtain k' a where p: "p = (k', a)" by (cases p)
  show ?case
  proof (cases "k' = k")
    case True
    with Cons.prems p have "k \<notin> fst ` set al" by auto
    then have "filter (\<lambda>(k', a). k' = k) al = []"
      by (force simp: filter_empty_conv)
    with True p show ?thesis by simp
  next
    case False
    with Cons p show ?thesis by simp
  qed
qed

lemma derive_fields:
  "TE (derive a) = (optimistic a + 4 * most_likely a + pessimistic a) / 6"
  "variance (derive a) = ((pessimistic a - optimistic a) / 6) ^ 2"
  "std_dev (derive a) = \<bar>pessimistic a - optimistic a\<bar> / 6"
  "optimistic (derive a) = optimistic a"
  "most_likely (derive a) = most_likely a"
  "pessimistic (derive a) = pessimistic a"
  "predecessors (derive a) = predecessors a"
  by (simp_all add: derive_def Let_def activity.extend_def scheduled.fields_def)

text \<open>
  Claim C10. When two rows have the same stripped name, reading raises nothing and the
  store holds, under that name, exactly the values of the later row: its optimistic, most
  likely and pessimistic estimates and its predecessor list. The name has one entry, so the
  earlier row is gone. The rows are any rows whose name cells are text; \<open>r2\<close> is the
  last row of its name.
\<close>

theorem duplicate_name_later_wins:
  assumes "\<forall>r\<in>set (pre @ r1 # mid @ r2 # post). col_Activity r \<noteq> NaN"
    and "row_name r1 = row_name r2"
    and "\<forall>r\<in>set post. row_name r \<noteq> row_name r2"
  shows "\<exists>acts. read_activity_data (pre @ r1 # mid @ r2 # post) = Inr acts
           \<and> map_of acts (row_name r2) = Some (row_activity r2)
           \<and> distinct (map fst acts)
           \<and> length (filter (\<lambda>(k, a). k = row_name r2) acts) = 1"
proof -
  let ?rows = "pre @ r1 # mid @ r2 # post"
  let ?acts = "fold store_row ?rows []"
  have r: "read_activity_data ?rows = Inr ?acts"
    unfolding read_activity_data_def using assms(1) by (rule read_rows_fold)
  have m: "map_of ?acts (row_name r2) = Some (row_activity r2)"
    using fold_store_last [OF assms(3), of "pre @ r1 # mid" "[]"] by simp
  have d: "distinct (map fst ?acts)"
    by (rule fold_store_distinct) simp
  have "length (filter (\<lambda>(k, a). k = row_name r2) ?acts) = 1"
    using d m by (rule distinct_keys_count)
  with r m d show ?thesis by blast
qed

text \<open>
  The theorem at three rows, the first and the third both named \<open>A\<close> after stripping.
\<close>

theorem duplicate_name_later_wins_witness:
  "row_name \<lparr> col_Activity = Str ''A'', col_Precedent = NaN, col_A = 1, col_M = 2, col_B = 3 \<rparr>
     = row_name \<lparr> col_Activity = Str '' A '', col_Precedent = Str ''B'', col_A = 4, col_M = 5, col_B = 6 \<rparr>
   \<and> (\<exists>acts. read_activity_data
         [\<lparr> col_Activity = Str ''A'', col_Precedent = NaN, col_A = 1, col_M = 2, col_B = 3 \<rparr>,
          \<lparr> col_Activity = Str ''B'', col_Precedent = Str ''A'', col_A = 2, col_M = 4, col_B = 6 \<rparr>,
          \<lparr> col_Activity = Str '' A '', col_Precedent = Str ''B'', col_A = 4, col_M = 5, col_B = 6 \<rparr>]
        = Inr acts
      \<and> map_of acts ''A''
          = Some \<lparr> optimistic = 4, most_likely = 5, pessimistic = 6, predecessors = [''B''] \<rparr>
      \<and> length (filter (\<lambda>(k, a). k = ''A'') acts) = 1)"
proof -
  let ?r1 = "\<lparr> col_Activity = Str ''A'', col_Precedent = NaN, col_A = 1, col_M = 2, col_B = 3 \<rparr>"
  let ?rB = "\<lparr> col_Activity = Str ''B'', col_Precedent = Str ''A'', col_A = 2, col_M = 4, col_B = 6 \<rparr>"
  let ?r2 = "\<lparr> col_Activity = Str '' A '', col_Precedent = Str ''B'', col_A = 4, col_M = 5, col_B = 6 \<rparr>"
  have h1: "\<forall>r\<in>set ([] @ ?r1 # [?rB] @ ?r2 # []). col_Activity r \<noteq> NaN" by simp
  have n1: "row_name ?r1 = ''A''" by (simp add: row_name_def strip_def isspace_def)
  have n2: "row_name ?r2 = ''A''" by (simp add: row_name_def strip_def isspace_def)
  have h2: "row_name ?r1 = row_name ?r2" by (simp only: n1 n2)
  have h3: "\<forall>r\<in>set []. row_name r \<noteq> row_name ?r2" by simp
  have v: "row_activity ?r2 = \<lparr> optimistic = 4, most_likely = 5, pessimistic = 6, predecessors = [''B''] \<rparr>"
    by (simp add: row_activity_def row_predecessors_def strip_def isspace_def)
  from duplicate_name_later_wins [OF h1 h2 h3] obtain acts where
    "read_activity_data ([] @ ?r1 # [?rB] @ ?r2 # []) = Inr acts"
    "map_of acts (row_name ?r2) = Some (row_activity ?r2)"
    "length (filter (\<lambda>(k, a). k = row_name ?r2) acts) = 1" by blast
  then have "read_activity_data [?r1, ?rB, ?r2] = Inr acts
      \<and> map_of acts ''A'' = Some \<lparr> optimistic = 4, most_likely = 5, pessimistic = 6, predecessors = [''B''] \<rparr>
      \<and> length (filter (\<lambda>(k, a). k = ''A'') acts) = 1"
    by (simp only: n2 v append_Nil append_Cons) 
  with h2 show ?thesis by blast
qed

lemma derive_explicit:
  "derive \<lparr> optimistic = a, most_likely = m, pessimistic = b, predecessors = ps \<rparr>
   = \<lparr> optimistic = a, most_likely = m, pessimistic = b, predecessors = ps,
       TE = (a + 4 * m + b) / 6, variance = ((b - a) / 6) ^ 2, std_dev = \<bar>b - a\<bar> / 6 \<rparr>"
  by (simp add: derive_def Let_def activity.extend_def scheduled.fields_def)

lemma map_of_derive_all:
  "map_of (derive_all acts) k = map_option derive (map_of acts k)"
  by (induction acts) (auto simp: derive_all_def)

text \<open>
  Claim C8, as the script does it. Reading validates nothing. Every list of rows whose name
  cells are text is read without an error. Each row is stored under its stripped name,
  whatever that name is and however its three estimates are ordered: for the last row of a
  name the store holds exactly the cells \<open>A\<close>, \<open>M\<close>, \<open>B\<close> of that row as the
  optimistic, most likely and pessimistic estimates, and its predecessor names. From these
  the expected time \<open>(A + 4 M + B) / 6\<close>, the variance \<open>((B - A) / 6)\<^sup>2\<close> and the
  standard deviation, its square root \<open>|B - A| / 6\<close>, are computed for every stored
  record.
\<close>

theorem ingestion_stores_every_named_row:
  assumes "\<forall>r\<in>set rows. col_Activity r \<noteq> NaN"
  shows "\<exists>acts. read_activity_data rows = Inr acts
           \<and> fst ` set acts = row_name ` set rows
           \<and> map fst (derive_all acts) = map fst acts
           \<and> (\<forall>pre r post. rows = pre @ r # post \<and> (\<forall>r'\<in>set post. row_name r' \<noteq> row_name r) \<longrightarrow>
                 map_of acts (row_name r)
                   = Some \<lparr> optimistic = col_A r, most_likely = col_M r, pessimistic = col_B r,
                            predecessors = row_predecessors r \<rparr>
               \<and> map_of (derive_all acts) (row_name r)
                   = Some \<lparr> optimistic = col_A r, most_likely = col_M r, pessimistic = col_B r,
                            predecessors = row_predecessors r,
                            TE = (col_A r + 4 * col_M r + col_B r) / 6,
                            variance = ((col_B r - col_A r) / 6) ^ 2,
                            std_dev = \<bar>col_B r - col_A r\<bar> / 6 \<rparr>)
           \<and> (\<forall>(name, a)\<in>set (derive_all acts).
                 TE a = (optimistic a + 4 * most_likely a + pessimistic a) / 6
               \<and> variance a = ((pessimistic a - optimistic a) / 6) ^ 2
               \<and> std_dev a = \<bar>pessimistic a - optimistic a\<bar> / 6)"
proof -
  let ?acts = "fold store_row rows []"
  have r: "read_activity_data rows = Inr ?acts"
    unfolding read_activity_data_def using assms by (rule read_rows_fold)
  have k: "fst ` set ?acts = row_name ` set rows" by (simp add: fold_store_keys)
  have m: "map fst (derive_all ?acts) = map fst ?acts"
    by (simp add: derive_all_def case_prod_unfold)
  have f: "\<forall>(name, a)\<in>set (derive_all ?acts).
                 TE a = (optimistic a + 4 * most_likely a + pessimistic a) / 6
               \<and> variance a = ((pessimistic a - optimistic a) / 6) ^ 2
               \<and> std_dev a = \<bar>pessimistic a - optimistic a\<bar> / 6"
    by (auto simp: derive_all_def derive_fields)
  have s: "\<forall>pre r post. rows = pre @ r # post \<and> (\<forall>r'\<in>set post. row_name r' \<noteq> row_name r) \<longrightarrow>
                 map_of ?acts (row_name r)
                   = Some \<lparr> optimistic = col_A r, most_likely = col_M r, pessimistic = col_B r,
                            predecessors = row_predecessors r \<rparr>
               \<and> map_of (derive_all ?acts) (row_name r)
                   = Some \<lparr> optimistic = col_A r, most_likely = col_M r, pessimistic = col_B r,
                            predecessors = row_predecessors r,
                            TE = (col_A r + 4 * col_M r + col_B r) / 6,
                            variance = ((col_B r - col_A r) / 6) ^ 2,
                            std_dev = \<bar>col_B r - col_A r\<bar> / 6 \<rparr>"
  proof (intro allI impI)
    fix pre r post
    assume a: "rows = pre @ r # post \<and> (\<forall>r'\<in>set post. row_name r' \<noteq> row_name r)"
    then have last: "\<forall>r'\<in>set post. row_name r' \<noteq> row_name r" and rows: "rows = pre @ r # post"
      by simp_all
    from fold_store_last [OF last, of pre "[]"]
    have st: "map_of ?acts (row_name r) = Some (row_activity r)" by (simp only: rows)
    then have st': "map_of ?acts (row_name r)
        = Some \<lparr> optimistic = col_A r, most_likely = col_M r, pessimistic = col_B r,
                 predecessors = row_predecessors r \<rparr>"
      by (simp only: row_activity_def)
    have "map_of (derive_all ?acts) (row_name r)
        = Some (derive \<lparr> optimistic = col_A r, most_likely = col_M r, pessimistic = col_B r,
                 predecessors = row_predecessors r \<rparr>)"
      by (simp only: map_of_derive_all st' option.map)
    with st' show "map_of ?acts (row_name r)
                   = Some \<lparr> optimistic = col_A r, most_likely = col_M r, pessimistic = col_B r,
                            predecessors = row_predecessors r \<rparr>
               \<and> map_of (derive_all ?acts) (row_name r)
                   = Some \<lparr> optimistic = col_A r, most_likely = col_M r, pessimistic = col_B r,
                            predecessors = row_predecessors r,
                            TE = (col_A r + 4 * col_M r + col_B r) / 6,
                            variance = ((col_B r - col_A r) / 6) ^ 2,
                            std_dev = \<bar>col_B r - col_A r\<bar> / 6 \<rparr>"
      by (simp only: derive_explicit simp_thms)
  qed
  show ?thesis
    apply (rule exI [of _ ?acts])
    apply (intro conjI r k m s f)
    done
qed

text \<open>
  Claim C8 as stated fails: a row with optimistic 3, most likely 2 and pessimistic 1 and a
  row whose name is blank are both read and stored, and the expected time of the first is
  computed.
\<close>

theorem no_validation_counterexample:
  "read_activity_data
     [\<lparr> col_Activity = Str ''A'', col_Precedent = NaN, col_A = 3, col_M = 2, col_B = 1 \<rparr>,
      \<lparr> col_Activity = Str '' '', col_Precedent = NaN, col_A = 1, col_M = 1, col_B = 1 \<rparr>]
   = Inr [(''A'', \<lparr> optimistic = 3, most_likely = 2, pessimistic = 1, predecessors = [] \<rparr>),
          ([], \<lparr> optimistic = 1, most_likely = 1, pessimistic = 1, predecessors = [] \<rparr>)]
   \<and> TE (derive \<lparr> optimistic = 3, most_likely = 2, pessimistic = 1, predecessors = [] \<rparr>) = 2"
  by (simp add: ingest_defs derive_fields)

text \<open>
  The theorem at two rows: one named A with the estimates 3, 2, 1, and one whose name is
  blank.
\<close>

theorem ingestion_stores_every_named_row_witness:
  "\<exists>acts. read_activity_data
     [\<lparr> col_Activity = Str ''A'', col_Precedent = NaN, col_A = 3, col_M = 2, col_B = 1 \<rparr>,
      \<lparr> col_Activity = Str '' '', col_Precedent = Str ''A'', col_A = 1, col_M = 1, col_B = 1 \<rparr>] = Inr acts
    \<and> fst ` set acts = {''A'', []}
    \<and> map_of acts ''A''
        = Some \<lparr> optimistic = 3, most_likely = 2, pessimistic = 1, predecessors = [] \<rparr>
    \<and> map_of (derive_all acts) ''A''
        = Some \<lparr> optimistic = 3, most_likely = 2, pessimistic = 1, predecessors = [],
                 TE = 2, variance = 1 / 9, std_dev = 1 / 3 \<rparr>
    \<and> map_of (derive_all acts) []
        = Some \<lparr> optimistic = 1, most_likely = 1, pessimistic = 1, predecessors = [''A''],
                 TE = 1, variance = 0, std_dev = 0 \<rparr>"
proof -
  let ?r1 = "\<lparr> col_Activity = Str ''A'', col_Precedent = NaN, col_A = 3, col_M = 2, col_B = 1 \<rparr>"
  let ?r2 = "\<lparr> col_Activity = Str '' '', col_Precedent = Str ''A'', col_A = 1, col_M = 1, col_B = 1 \<rparr>"
  have h: "\<forall>r\<in>set [?r1, ?r2]. col_Activity r \<noteq> NaN" by simp
  have n1: "row_name ?r1 = ''A''" and n2: "row_name ?r2 = []"
    by (simp_all add: row_name_def strip_def isspace_def)
  have p1: "row_predecessors ?r1 = []" and p2: "row_predecessors ?r2 = [''A'']"
    by (simp_all add: row_predecessors_def strip_def isspace_def)
  from ingestion_stores_every_named_row [OF h] obtain acts where
    run: "read_activity_data [?r1, ?r2] = Inr acts"
    and keys: "fst ` set acts = row_name ` set [?r1, ?r2]"
    and st: "\<forall>pre r post. [?r1, ?r2] = pre @ r # post \<and> (\<forall>r'\<in>set post. row_name r' \<noteq> row_name r) \<longrightarrow>
                 map_of acts (row_name r)
                   = Some \<lparr> optimistic = col_A r, most_likely = col_M r, pessimistic = col_B r,
                            predecessors = row_predecessors r \<rparr>
               \<and> map_of (derive_all acts) (row_name r)
                   = Some \<lparr> optimistic = col_A r, most_likely = col_M r, pessimistic = col_B r,
                            predecessors = row_predecessors r,
                            TE = (col_A r + 4 * col_M r + col_B r) / 6,
                            variance = ((col_B r - col_A r) / 6) ^ 2,
                            std_dev = \<bar>col_B r - col_A r\<bar> / 6 \<rparr>"
    by (elim exE conjE)
  have k: "fst ` set acts = {''A'', []}" using keys by (simp add: n1 n2)
  have c1: "[?r1, ?r2] = [] @ ?r1 # [?r2] \<and> (\<forall>r'\<in>set [?r2]. row_name r' \<noteq> row_name ?r1)"
    by (simp add: n1 n2)
  have c2: "[?r1, ?r2] = [?r1] @ ?r2 # [] \<and> (\<forall>r'\<in>set []. row_name r' \<noteq> row_name ?r2)"
    by simp
  from st [rule_format, OF c1] have v1: "map_of acts ''A''
        = Some \<lparr> optimistic = 3, most_likely = 2, pessimistic = 1, predecessors = [] \<rparr>"
    "map_of (derive_all acts) ''A''
        = Some \<lparr> optimistic = 3, most_likely = 2, pessimistic = 1, predecessors = [],
                 TE = 2, variance = 1 / 9, std_dev = 1 / 3 \<rparr>"
    by (simp_all add: n1 p1 power2_eq_square)
  from st [rule_format, OF c2] have v2: "map_of (derive_all acts) []
        = Some \<lparr> optimistic = 1, most_likely = 1, pessimistic = 1, predecessors = [''A''],
                 TE = 1, variance = 0, std_dev = 0 \<rparr>"
    by (simp add: n2 p2)
  show ?thesis
    apply (rule exI [of _ acts])
    apply (intro conjI run k v1 v2)
    done
qed

subsection \<open>Statistics of chosen activities and the PERT table\<close>

lemma specific_durations_concat:
  "specific_durations activities names =
     concat (map (\<lambda>n. case map_of activities n of None \<Rightarrow> [] | Some a \<Rightarrow> [TE a]) names)"
  by (induction names) (auto simp: specific_durations_def map_filter_simps split: option.splits)

text \<open>
  Claim C9. For every store and every list of chosen names, the statistics return without an
  error; the collected values are the expected times of the chosen names that are in the
  store, a name that is not there contributing nothing; with fewer than two collected values
  (none included) the variance and the standard deviation are both 0; otherwise the variance
  is the sum of the squared deviations from the mean divided by \<open>n - 1\<close> and the
  standard deviation is its square root.
\<close>

theorem subset_statistics:
  "\<exists>v s. specific_stats activities names = Inr (v, s)
     \<and> specific_durations activities names =
         concat (map (\<lambda>n. case map_of activities n of None \<Rightarrow> [] | Some a \<Rightarrow> [TE a]) names)
     \<and> (length (specific_durations activities names) < 2 \<longrightarrow> v = 0 \<and> s = 0)
     \<and> (2 \<le> length (specific_durations activities names) \<longrightarrow>
          v = (\<Sum>x\<leftarrow>specific_durations activities names.
                 (x - sum_list (specific_durations activities names)
                       / real (length (specific_durations activities names))) ^ 2)
              / (real (length (specific_durations activities names)) - 1)
        \<and> s = sqrt v)"
proof (cases "length (specific_durations activities names) < 2")
  case True
  then show ?thesis
    by (auto simp: specific_stats_def Let_def specific_durations_concat)
next
  case False
  then have "real (length (specific_durations activities names) - 1)
      = real (length (specific_durations activities names)) - 1" by simp
  with False show ?thesis
    by (simp add: specific_stats_def Let_def calc_variance_def calc_stdev_def mean_def
        specific_durations_concat [symmetric])
qed

text \<open>
  The theorem at the example store: the four names of the script, of which \<open>D\<close> is no
  activity; one found name and one missing name; and no name at all.
\<close>

theorem subset_statistics_witness:
  "specific_stats ex_activities specific_activities = Inr (7 / 3, sqrt (7 / 3))
   \<and> specific_durations ex_activities specific_activities = [2, 4, 1]
   \<and> specific_stats ex_activities [''C'', ''Z''] = Inr (0, 0)
   \<and> specific_stats ex_activities [] = Inr (0, 0)"
proof -
  have d: "specific_durations ex_activities specific_activities = [2, 4, 1]"
    by (simp add: specific_durations_def specific_activities_def ex_activities_def map_filter_simps)
  have d2: "specific_durations ex_activities [''C'', ''Z''] = [1]"
    by (simp add: specific_durations_def ex_activities_def map_filter_simps)
  have d3: "specific_durations ex_activities [] = []"
    by (simp add: specific_durations_def map_filter_simps)
  from subset_statistics [of ex_activities specific_activities]
  have a: "specific_stats ex_activities specific_activities = Inr (7 / 3, sqrt (7 / 3))"
    unfolding d by (auto simp: power2_eq_square)
  from subset_statistics [of ex_activities "[''C'', ''Z'']"]
  have b: "specific_stats ex_activities [''C'', ''Z''] = Inr (0, 0)"
    unfolding d2 by auto
  from subset_statistics [of ex_activities "[]"]
  have c: "specific_stats ex_activities [] = Inr (0, 0)"
    unfolding d3 by auto
  from a b c d show ?thesis by simp
qed

text \<open>
  Claim C1 fails on the script. The claim wants the PERT table computed without an error,
  with z-score 0 and probability 0, when the critical set is empty or the total standard
  deviation is 0. The script never assigns \<open>total_standard_deviation\<close>, so for every
  store with an activity, whatever its variances and its timing, the first row of the PERT
  table raises \<open>NameError\<close>.
\<close>

theorem pert_raises_NameError:
  "activities \<noteq> [] \<Longrightarrow>
   pert_table_data total_standard_deviation cdf t activities
     = Inl (NameError ''total_standard_deviation'')"
  by (cases activities) (auto simp: total_standard_deviation_def)

text \<open>
  The theorem at the store of one activity A (1, 1, 1), whose variance is 0, so that the total
  standard deviation of the claim is 0.
\<close>

theorem pert_raises_NameError_witness:
  "one_activities \<noteq> []
   \<and> variance (snd (hd one_activities)) = 0
   \<and> pert_table_data total_standard_deviation (\<lambda>z. 1 / 2) one_timing one_activities
       = Inl (NameError ''total_standard_deviation'')"
proof -
  have h: "one_activities \<noteq> []" by (simp add: one_activities_def)
  from pert_raises_NameError [OF h, of "\<lambda>z. 1 / 2" one_timing] h
  show ?thesis by (simp add: one_activities_def)
qed

subsection \<open>The timing of a graph\<close>

lemma map_of_flag: "n \<in> set ns \<Longrightarrow> map_of (map (\<lambda>n. (n, f n)) ns) n = Some (f n)"
  by (induction ns) auto

lemma dict_get_Some: "map_of d k = Some v \<Longrightarrow> dict_get d k dflt = v"
  by (simp add: dict_get_def)

lemma Max_values_ge: "map_of d k = Some v \<Longrightarrow> v \<le> Max (snd ` set d)"
  by (rule Max_ge) (auto dest!: map_of_SomeD intro: rev_image_eqI)



lemma min_default_lower: "x \<in> set xs \<Longrightarrow> min_default xs d \<le> x"
  by (auto simp: min_default_def)

lemma min_default_attained: "xs \<noteq> [] \<Longrightarrow> min_default xs d \<in> set xs"
  using Min_in [of "set xs"] by (simp add: min_default_def)

lemma cpm_InrD:
  assumes "cpm G order = Inr t"
  shows "forward_pass G order ([], []) = Inr (earliest_start t, earliest_finish t)"
    and "backward_pass G (earliest_finish t) (rev order) ([], []) = Inr (latest_finish t, latest_start t)"
    and "critical_nodes (map fst (nodes G)) (earliest_start t) (latest_start t) = Inr (critical_path t)"
    and "max_finish (earliest_finish t) = Inr (total_project_duration t)"
    and "critical_activities t = map (\<lambda>node. (node, node \<in> set (critical_path t))) (map fst (nodes G))"
  using assms by (auto simp: cpm_def split: sum.splits prod.splits)

lemma cpm_exists:
  assumes top: "topological G order" and ne: "order \<noteq> []"
  shows "\<exists>t. cpm G order = Inr t"
proof -
  from top have nodes: "set order = set (map fst (nodes G))"
    by (simp add: topological_def)
  have nd: "\<forall>n\<in>set order. map_of (nodes G) n \<noteq> None"
    using nodes by (auto simp: map_of_eq_None_iff)
  from forward_pass_Inr [OF nd] obtain es ef where fw: "forward_pass G order ([], []) = Inr (es, ef)"
    by blast
  from forward_pass_keys [OF fw] have kes: "fst ` set es = set order" and kef: "fst ` set ef = set order"
    by simp_all
  from forward_pass_distinct [OF fw] have def: "distinct (map fst ef)" by simp
  from kef ne have efne: "ef \<noteq> []" by auto
  have mf: "max_finish ef = Inr (Max (snd ` set ef))" using efne def by (rule max_finish_Max)
  have nd': "\<forall>n\<in>set (rev order). map_of (nodes G) n \<noteq> None" using nd by simp
  from backward_pass_Inr [OF nd' mf] obtain lf ls
    where bw: "backward_pass G ef (rev order) ([], []) = Inr (lf, ls)" by blast
  from backward_pass_keys [OF bw] have kls: "fst ` set ls = set order" by simp
  have "\<forall>n\<in>set (map fst (nodes G)). map_of es n \<noteq> None \<and> map_of ls n \<noteq> None"
    using kes kls nodes by (simp add: map_of_eq_None_iff)
  then have cn: "critical_nodes (map fst (nodes G)) es ls
      = Inr (filter (\<lambda>n. map_of es n = map_of ls n) (map fst (nodes G)))"
    by (rule critical_nodes_filter)
  show ?thesis by (simp add: cpm_def fw bw cn mf)
qed

lemma cpm_keys:
  assumes "cpm G order = Inr t"
  shows "fst ` set (earliest_start t) = set order" and "fst ` set (earliest_finish t) = set order"
    and "fst ` set (latest_start t) = set order" and "fst ` set (latest_finish t) = set order"
  using forward_pass_keys [OF cpm_InrD(1) [OF assms]] backward_pass_keys [OF cpm_InrD(2) [OF assms]]
  by simp_all

lemma cpm_distinct_finish:
  assumes "cpm G order = Inr t"
  shows "distinct (map fst (earliest_finish t))"
  using forward_pass_distinct [OF cpm_InrD(1) [OF assms]] by simp

lemma cpm_total:
  assumes run: "cpm G order = Inr t" and n: "n \<in> set order"
  shows "total_project_duration t = Max (snd ` set (earliest_finish t))"
proof -
  from cpm_keys(2) [OF run] n have "earliest_finish t \<noteq> []" by auto
  from max_finish_Max [OF this cpm_distinct_finish [OF run]] cpm_InrD(4) [OF run]
  show ?thesis by simp
qed

lemma cpm_critical_path:
  assumes top: "topological G order" and run: "cpm G order = Inr t"
  shows "critical_path t
     = filter (\<lambda>n. map_of (earliest_start t) n = map_of (latest_start t) n) (map fst (nodes G))"
proof -
  from top have nodes: "set order = set (map fst (nodes G))"
    by (simp add: topological_def)
  have "\<forall>n\<in>set (map fst (nodes G)).
          map_of (earliest_start t) n \<noteq> None \<and> map_of (latest_start t) n \<noteq> None"
    using cpm_keys(1,3) [OF run] nodes by (simp add: map_of_eq_None_iff)
  from critical_nodes_filter [OF this] cpm_InrD(3) [OF run] show ?thesis by simp
qed

lemma cpm_node:
  assumes top: "topological G order" and run: "cpm G order = Inr t" and n: "n \<in> set order"
  shows "\<exists>d. map_of (nodes G) n = Some d
     \<and> map_of (earliest_start t) n = Some (max_default (map (\<lambda>p. dict_get (earliest_finish t) p 0) (G_predecessors G n)) 0)
     \<and> map_of (earliest_finish t) n = Some (max_default (map (\<lambda>p. dict_get (earliest_finish t) p 0) (G_predecessors G n)) 0 + duration d)
     \<and> map_of (latest_finish t) n = Some (min_default (map (\<lambda>s. dict_get (latest_start t) s (total_project_duration t)) (G_successors G n)) (total_project_duration t))
     \<and> map_of (latest_start t) n = Some (min_default (map (\<lambda>s. dict_get (latest_start t) s (total_project_duration t)) (G_successors G n)) (total_project_duration t) - duration d)"
proof -
  from top have dist: "distinct order"
    and bef: "\<forall>(u, v)\<in>set (edges G). before order u v"
    by (simp_all add: topological_def)
  have d1: "distinct ([] @ order)" using dist by simp
  have b1: "\<forall>(u, v)\<in>set (edges G). before ([] @ order) u v" using bef by simp
  have d2: "distinct (order @ [])" using dist by simp
  have b2: "\<forall>(u, v)\<in>set (edges G). before (order @ []) u v" using bef by simp
  from forward_pass_spec [OF cpm_InrD(1) [OF run] d1 b1] n
  obtain d where f: "map_of (nodes G) n = Some d"
    "map_of (earliest_start t) n = Some (max_default (map (\<lambda>p. dict_get (earliest_finish t) p 0) (G_predecessors G n)) 0)"
    "map_of (earliest_finish t) n = Some (max_default (map (\<lambda>p. dict_get (earliest_finish t) p 0) (G_predecessors G n)) 0 + duration d)"
    by blast
  from backward_pass_spec [OF cpm_InrD(2) [OF run] d2 b2 cpm_InrD(4) [OF run]] n
  obtain d' where b: "map_of (nodes G) n = Some d'"
    "map_of (latest_finish t) n = Some (min_default (map (\<lambda>s. dict_get (latest_start t) s (total_project_duration t)) (G_successors G n)) (total_project_duration t))"
    "map_of (latest_start t) n = Some (min_default (map (\<lambda>s. dict_get (latest_start t) s (total_project_duration t)) (G_successors G n)) (total_project_duration t) - duration d')"
    by blast
  from f(1) b(1) have "d' = d" by simp
  with f b show ?thesis by simp
qed

lemma slack_core:
  fixes EF LS :: "string \<Rightarrow> real"
  assumes dist: "distinct order" and bef: "\<forall>(u, v)\<in>set (edges G). before order u v"
    and F: "\<forall>n\<in>set order. EF n = max_default (map EF (G_predecessors G n)) 0 + dur n"
    and B: "\<forall>n\<in>set order. LS n = min_default (map LS (G_successors G n)) T - dur n"
    and T: "\<forall>n\<in>set order. EF n \<le> T"
  shows "\<forall>n\<in>set order. max_default (map EF (G_predecessors G n)) 0 \<le> LS n"
proof -
  have "order = pre @ post \<Longrightarrow> \<forall>n\<in>set post. max_default (map EF (G_predecessors G n)) 0 \<le> LS n"
    for pre post
  proof (induction post arbitrary: pre)
    case Nil
    show ?case by simp
  next
    case (Cons x post)
    from Cons.prems have split: "order = (pre @ [x]) @ post" by simp
    have tail: "\<forall>n\<in>set post. max_default (map EF (G_predecessors G n)) 0 \<le> LS n"
      by (rule Cons.IH [OF split])
    from Cons.prems have xin: "x \<in> set order" by simp
    have "EF x \<le> min_default (map LS (G_successors G x)) T"
    proof (cases "G_successors G x = []")
      case True
      with T xin show ?thesis by (simp add: min_default_def)
    next
      case False
      have "EF x \<le> LS s" if s: "s \<in> set (G_successors G x)" for s
      proof -
        from s have e: "(x, s) \<in> set (edges G)" by (simp add: in_G_successors)
        with bef have "before order x s" by auto
        with Cons.prems have bx: "before (pre @ x # post) x s" by simp
        from dist Cons.prems have "distinct (pre @ x # post)" by simp
        from this bx have "s \<in> set post" by (rule before_succ_in_suffix)
        with tail have le: "max_default (map EF (G_predecessors G s)) 0 \<le> LS s" by simp
        from e have "x \<in> set (G_predecessors G s)" by (simp add: in_G_predecessors)
        then have "EF x \<le> max_default (map EF (G_predecessors G s)) 0"
          by (auto simp: max_default_def)
        with le show ?thesis by simp
      qed
      with False show ?thesis by (simp add: min_default_def)
    qed
    with F B xin have "max_default (map EF (G_predecessors G x)) 0 \<le> LS x" by simp
    with tail show ?case by simp
  qed
  from this [of "[]" order] show ?thesis by simp
qed


lemma cpm_functions:
  assumes top: "topological G order" and run: "cpm G order = Inr t"
  defines "EF \<equiv> (\<lambda>p. dict_get (earliest_finish t) p 0)"
    and "LS \<equiv> (\<lambda>s. dict_get (latest_start t) s (total_project_duration t))"
    and "dur \<equiv> (\<lambda>n. case map_of (nodes G) n of None \<Rightarrow> 0 | Some d \<Rightarrow> duration d)"
  shows "\<forall>n\<in>set order. EF n = max_default (map EF (G_predecessors G n)) 0 + dur n"
    and "\<forall>n\<in>set order. LS n = min_default (map LS (G_successors G n)) (total_project_duration t) - dur n"
    and "\<forall>n\<in>set order. EF n \<le> total_project_duration t"
proof -
  show "\<forall>n\<in>set order. EF n = max_default (map EF (G_predecessors G n)) 0 + dur n"
  proof
    fix n assume "n \<in> set order"
    from cpm_node [OF top run this] obtain d where "map_of (nodes G) n = Some d"
      "map_of (earliest_finish t) n = Some (max_default (map (\<lambda>p. dict_get (earliest_finish t) p 0) (G_predecessors G n)) 0 + duration d)"
      by blast
    then show "EF n = max_default (map EF (G_predecessors G n)) 0 + dur n"
      by (simp add: EF_def dur_def dict_get_def)
  qed
  show "\<forall>n\<in>set order. LS n = min_default (map LS (G_successors G n)) (total_project_duration t) - dur n"
  proof
    fix n assume "n \<in> set order"
    from cpm_node [OF top run this] obtain d where "map_of (nodes G) n = Some d"
      "map_of (latest_start t) n = Some (min_default (map (\<lambda>s. dict_get (latest_start t) s (total_project_duration t)) (G_successors G n)) (total_project_duration t) - duration d)"
      by blast
    then show "LS n = min_default (map LS (G_successors G n)) (total_project_duration t) - dur n"
      by (simp add: LS_def dur_def dict_get_def)
  qed
  show "\<forall>n\<in>set order. EF n \<le> total_project_duration t"
  proof
    fix n assume n: "n \<in> set order"
    from cpm_node [OF top run n] obtain v where v: "map_of (earliest_finish t) n = Some v" by blast
    then have "v \<le> Max (snd ` set (earliest_finish t))" by (rule Max_values_ge)
    with v show "EF n \<le> total_project_duration t"
      by (simp add: EF_def cpm_total [OF run n] dict_get_def)
  qed
qed

lemma cpm_window_le:
  assumes top: "topological G order" and run: "cpm G order = Inr t" and n: "n \<in> set order"
  shows "\<exists>a b c d. map_of (earliest_start t) n = Some a
           \<and> map_of (earliest_finish t) n = Some b \<and> map_of (latest_start t) n = Some c
           \<and> map_of (latest_finish t) n = Some d \<and> a \<le> c \<and> b \<le> d \<and> 0 \<le> d - b
           \<and> (c = a \<longleftrightarrow> d - b = 0)"
proof -
  from top have dist: "distinct order"
    and bef: "\<forall>(u, v)\<in>set (edges G). before order u v"
    by (simp_all add: topological_def)
  let ?EF = "\<lambda>p. dict_get (earliest_finish t) p 0"
  let ?LS = "\<lambda>s. dict_get (latest_start t) s (total_project_duration t)"
  let ?a = "max_default (map ?EF (G_predecessors G n)) 0"
  let ?d = "min_default (map ?LS (G_successors G n)) (total_project_duration t)"
  note core = slack_core [OF dist bef cpm_functions [OF top run]]
  from cpm_node [OF top run n] obtain nd where nd: "map_of (nodes G) n = Some nd"
    and a: "map_of (earliest_start t) n = Some ?a"
    and b: "map_of (earliest_finish t) n = Some (?a + duration nd)"
    and d: "map_of (latest_finish t) n = Some ?d"
    and c: "map_of (latest_start t) n = Some (?d - duration nd)"
    by blast
  from c have eq: "?LS n = ?d - duration nd" by (rule dict_get_Some)
  from bspec [OF core n] have "?a \<le> ?LS n" .
  then have le: "?a \<le> ?d - duration nd" by (simp only: eq)
  have "map_of (earliest_start t) n = Some ?a
      \<and> map_of (earliest_finish t) n = Some (?a + duration nd)
      \<and> map_of (latest_start t) n = Some (?d - duration nd)
      \<and> map_of (latest_finish t) n = Some ?d \<and> ?a \<le> ?d - duration nd
      \<and> ?a + duration nd \<le> ?d \<and> 0 \<le> ?d - (?a + duration nd)
      \<and> (?d - duration nd = ?a \<longleftrightarrow> ?d - (?a + duration nd) = 0)"
    using a b c d le by auto
  then show ?thesis by blast
qed

lemma cpm_total_bounds:
  assumes top: "topological G order" and run: "cpm G order = Inr t"
  shows "\<forall>n\<in>set order. \<exists>ef. map_of (earliest_finish t) n = Some ef \<and> ef \<le> total_project_duration t"
proof
  fix n assume n: "n \<in> set order"
  from cpm_node [OF top run n] obtain v where v: "map_of (earliest_finish t) n = Some v" by blast
  from bspec [OF cpm_functions(3) [OF top run] n] v have "v \<le> total_project_duration t"
    by (simp add: dict_get_def)
  with v show "\<exists>ef. map_of (earliest_finish t) n = Some ef \<and> ef \<le> total_project_duration t"
    by simp
qed

lemma cpm_total_attained:
  assumes run: "cpm G order = Inr t" and ne: "order \<noteq> []"
  shows "\<exists>n\<in>set order. map_of (earliest_finish t) n = Some (total_project_duration t)"
proof -
  from ne obtain n0 where n0: "n0 \<in> set order" by (cases order) auto
  from cpm_keys(2) [OF run] n0 have nonempty: "snd ` set (earliest_finish t) \<noteq> {}" by auto
  have "Max (snd ` set (earliest_finish t)) \<in> snd ` set (earliest_finish t)"
    by (rule Max_in) (use nonempty in simp_all)
  then obtain k where k: "(k, Max (snd ` set (earliest_finish t))) \<in> set (earliest_finish t)"
    by force
  from cpm_distinct_finish [OF run] k
  have "map_of (earliest_finish t) k = Some (Max (snd ` set (earliest_finish t)))"
    by (rule map_of_is_SomeI)
  moreover from k have "k \<in> fst ` set (earliest_finish t)" by force
  ultimately show ?thesis using cpm_keys(2) [OF run] cpm_total [OF run n0] by auto
qed

lemma cpm_finish_defined:
  assumes top: "topological G order" and run: "cpm G order = Inr t" and n: "n \<in> set order"
  shows "\<exists>v. map_of (earliest_finish t) n = Some v \<and> dict_get (earliest_finish t) n dflt = v"
    and "\<exists>v. map_of (latest_start t) n = Some v \<and> dict_get (latest_start t) n dflt = v"
  using cpm_node [OF top run n] by (auto simp: dict_get_def)


lemma ex_topological: "topological ex_graph [''A'', ''B'', ''C'']"
  by (simp add: topological_def ex_graph_def)

lemma ex_cpm: "cpm ex_graph [''A'', ''B'', ''C''] = Inr ex_timing"
  by (simp add: cpm_def ex_graph_def ex_timing_def G_predecessors_def G_successors_def
      max_default_def min_default_def dict_get_def max_finish_def max_key_def Let_def)


lemmas build_defs = derive_all_def derive_def Let_def activity.extend_def scheduled.fields_def
     build_graph_def add_activity_def add_node_def add_edge_def add_missing_node_def no_attrs_def
     fill_defaults_def or_zero_def

lemmas cpm_defs = cpm_def G_predecessors_def G_successors_def
      max_default_def min_default_def dict_get_def max_finish_def max_key_def Let_def









text \<open>
  Claim C4. For every non-empty graph and every topological order of it the timing is
  computed, and for every node: \<open>LF\<close> is the smallest \<open>LS\<close> of its successors (every
  node it has an edge to has an \<open>LS\<close>, none of them smaller than \<open>LF\<close> and one of
  them equal to it), and the total project duration when it has none; \<open>LS\<close> is
  \<open>LF\<close> minus the duration of the node. So every node without successors has \<open>LF\<close>
  equal to the total project duration, which is the largest \<open>EF\<close>.
\<close>

theorem backward_pass_anchors_sinks:
  assumes top: "topological G order" and ne: "order \<noteq> []"
  shows "\<exists>t. cpm G order = Inr t
     \<and> (\<forall>n\<in>set order. \<exists>d lf. map_of (nodes G) n = Some d
           \<and> map_of (latest_finish t) n = Some lf
           \<and> (\<forall>s. (n, s) \<in> set (edges G) \<longrightarrow>
                 (\<exists>ls. map_of (latest_start t) s = Some ls \<and> lf \<le> ls))
           \<and> ((\<exists>s. (n, s) \<in> set (edges G)) \<longrightarrow>
                 (\<exists>s. (n, s) \<in> set (edges G) \<and> map_of (latest_start t) s = Some lf))
           \<and> ((\<forall>s. (n, s) \<notin> set (edges G)) \<longrightarrow> lf = total_project_duration t)
           \<and> map_of (latest_start t) n = Some (lf - duration d))
     \<and> (\<forall>n\<in>set order. \<exists>ef. map_of (earliest_finish t) n = Some ef \<and> ef \<le> total_project_duration t)
     \<and> (\<exists>n\<in>set order. map_of (earliest_finish t) n = Some (total_project_duration t))"
proof -
  from top have bef: "\<forall>(u, v)\<in>set (edges G). before order u v"
    by (simp add: topological_def)
  from cpm_exists [OF top ne] obtain t where run: "cpm G order = Inr t" ..
  let ?T = "total_project_duration t"
  let ?LS = "\<lambda>s. dict_get (latest_start t) s ?T"
  have A: "\<forall>n\<in>set order. \<exists>d lf. map_of (nodes G) n = Some d
           \<and> map_of (latest_finish t) n = Some lf
           \<and> (\<forall>s. (n, s) \<in> set (edges G) \<longrightarrow>
                 (\<exists>ls. map_of (latest_start t) s = Some ls \<and> lf \<le> ls))
           \<and> ((\<exists>s. (n, s) \<in> set (edges G)) \<longrightarrow>
                 (\<exists>s. (n, s) \<in> set (edges G) \<and> map_of (latest_start t) s = Some lf))
           \<and> ((\<forall>s. (n, s) \<notin> set (edges G)) \<longrightarrow> lf = ?T)
           \<and> map_of (latest_start t) n = Some (lf - duration d)"
  proof
    fix n assume n: "n \<in> set order"
    let ?lf = "min_default (map ?LS (G_successors G n)) ?T"
    from cpm_node [OF top run n] obtain d where d: "map_of (nodes G) n = Some d"
      and lf: "map_of (latest_finish t) n = Some ?lf"
      and ls: "map_of (latest_start t) n = Some (?lf - duration d)"
      by blast
    have val: "\<exists>v. map_of (latest_start t) s = Some v \<and> ?LS s = v"
      if "(n, s) \<in> set (edges G)" for s
    proof -
      from that bef have "before order n s" by auto
      then have "s \<in> set order" by (rule before_in2)
      from cpm_finish_defined(2) [OF top run this] show ?thesis .
    qed
    have low: "\<forall>s. (n, s) \<in> set (edges G) \<longrightarrow>
                 (\<exists>ls. map_of (latest_start t) s = Some ls \<and> ?lf \<le> ls)"
    proof (intro allI impI)
      fix s assume e: "(n, s) \<in> set (edges G)"
      from val [OF e] obtain v where v: "map_of (latest_start t) s = Some v" "?LS s = v"
        by blast
      from e have "s \<in> set (G_successors G n)" by (simp add: in_G_successors)
      then have "?LS s \<in> set (map ?LS (G_successors G n))" by simp
      then have "?lf \<le> ?LS s" by (rule min_default_lower)
      with v show "\<exists>ls. map_of (latest_start t) s = Some ls \<and> ?lf \<le> ls" by simp
    qed
    have att: "(\<exists>s. (n, s) \<in> set (edges G)) \<longrightarrow>
                 (\<exists>s. (n, s) \<in> set (edges G) \<and> map_of (latest_start t) s = Some ?lf)"
    proof
      assume "\<exists>s. (n, s) \<in> set (edges G)"
      then obtain q where "q \<in> set (G_successors G n)" by (auto simp: in_G_successors)
      then have "map ?LS (G_successors G n) \<noteq> []" by auto
      then have "?lf \<in> set (map ?LS (G_successors G n))" by (rule min_default_attained)
      then obtain s where s: "s \<in> set (G_successors G n)" and sv: "?LS s = ?lf" by auto
      from s have e: "(n, s) \<in> set (edges G)" by (simp add: in_G_successors)
      from val [OF e] sv have "map_of (latest_start t) s = Some ?lf" by auto
      with e show "\<exists>s. (n, s) \<in> set (edges G) \<and> map_of (latest_start t) s = Some ?lf"
        by blast
    qed
    have none: "(\<forall>s. (n, s) \<notin> set (edges G)) \<longrightarrow> ?lf = ?T"
    proof
      assume no: "\<forall>s. (n, s) \<notin> set (edges G)"
      have "G_successors G n = []"
      proof (cases "G_successors G n")
        case Nil
        then show ?thesis .
      next
        case (Cons q qs)
        then have "q \<in> set (G_successors G n)" by simp
        then have "(n, q) \<in> set (edges G)" by (simp add: in_G_successors)
        with no show ?thesis by simp
      qed
      then show "?lf = ?T" by (simp add: min_default_def)
    qed
    show "\<exists>d lf. map_of (nodes G) n = Some d
           \<and> map_of (latest_finish t) n = Some lf
           \<and> (\<forall>s. (n, s) \<in> set (edges G) \<longrightarrow>
                 (\<exists>ls. map_of (latest_start t) s = Some ls \<and> lf \<le> ls))
           \<and> ((\<exists>s. (n, s) \<in> set (edges G)) \<longrightarrow>
                 (\<exists>s. (n, s) \<in> set (edges G) \<and> map_of (latest_start t) s = Some lf))
           \<and> ((\<forall>s. (n, s) \<notin> set (edges G)) \<longrightarrow> lf = ?T)
           \<and> map_of (latest_start t) n = Some (lf - duration d)"
      apply (rule exI [of _ d], rule exI [of _ ?lf])
      apply (intro conjI d lf low att none ls)
      done
  qed
  show ?thesis
    apply (rule exI [of _ t])
    apply (intro conjI run A cpm_total_bounds [OF top run] cpm_total_attained [OF run ne])
    done
qed

text \<open>
  The theorem at the example graph: B and C have no successor and their \<open>LF\<close> is the
  total 6; the \<open>LF\<close> of A is 2, the smaller of the \<open>LS\<close> 2 of B and 5 of C.
\<close>

theorem backward_pass_anchors_sinks_witness:
  "topological ex_graph [''A'', ''B'', ''C'']
   \<and> edges ex_graph = [(''A'', ''B''), (''A'', ''C'')]
   \<and> (\<exists>t. cpm ex_graph [''A'', ''B'', ''C''] = Inr t
        \<and> map_of (latest_finish t) ''C'' = Some 6 \<and> map_of (latest_start t) ''C'' = Some 5
        \<and> map_of (latest_finish t) ''B'' = Some 6 \<and> map_of (latest_start t) ''B'' = Some 2
        \<and> map_of (latest_finish t) ''A'' = Some 2 \<and> map_of (latest_start t) ''A'' = Some 0
        \<and> total_project_duration t = 6)"
proof -
  have ne: "[''A'', ''B'', ''C''] \<noteq> ([] :: string list)" by simp
  from backward_pass_anchors_sinks [OF ex_topological ne] obtain t where
    run: "cpm ex_graph [''A'', ''B'', ''C''] = Inr t" by blast
  then have t: "t = ex_timing" by (simp add: ex_cpm)
  have e: "edges ex_graph = [(''A'', ''B''), (''A'', ''C'')]" by (simp add: ex_graph_def)
  have v: "map_of (latest_finish t) ''C'' = Some 6" "map_of (latest_start t) ''C'' = Some 5"
    "map_of (latest_finish t) ''B'' = Some 6" "map_of (latest_start t) ''B'' = Some 2"
    "map_of (latest_finish t) ''A'' = Some 2" "map_of (latest_start t) ''A'' = Some 0"
    "total_project_duration t = 6"
    by (simp_all add: t ex_timing_def)
  show ?thesis
    apply (intro conjI ex_topological e)
    apply (rule exI [of _ t])
    apply (intro conjI run v)
    done
qed

text \<open>
  Claim C5, as the script does it. The script compares with \<open>==\<close> and has no
  tolerance: for every non-empty graph and every topological order of it, a node is on the
  critical path exactly when its \<open>LS\<close> equals its \<open>ES\<close>, which over exact reals is
  exactly when its slack \<open>LF - EF\<close> is 0; and its critical flag says whether it is on the
  critical path.
\<close>

theorem critical_iff_equal_starts:
  assumes top: "topological G order" and ne: "order \<noteq> []"
  shows "\<exists>t. cpm G order = Inr t
     \<and> (\<forall>n\<in>set order. \<exists>es ef ls lf. window t n = Some (es, ef, ls, lf)
           \<and> (n \<in> set (critical_path t) \<longleftrightarrow> ls = es)
           \<and> (ls = es \<longleftrightarrow> lf - ef = 0)
           \<and> map_of (critical_activities t) n = Some (n \<in> set (critical_path t)))"
proof -
  from top have nodes: "set order = set (map fst (nodes G))"
    by (simp add: topological_def)
  from cpm_exists [OF top ne] obtain t where run: "cpm G order = Inr t" ..
  have A: "\<forall>n\<in>set order. \<exists>es ef ls lf. window t n = Some (es, ef, ls, lf)
           \<and> (n \<in> set (critical_path t) \<longleftrightarrow> ls = es)
           \<and> (ls = es \<longleftrightarrow> lf - ef = 0)
           \<and> map_of (critical_activities t) n = Some (n \<in> set (critical_path t))"
  proof
    fix n assume n: "n \<in> set order"
    from cpm_window_le [OF top run n] obtain a b c d where abcd:
      "map_of (earliest_start t) n = Some a" "map_of (earliest_finish t) n = Some b"
      "map_of (latest_start t) n = Some c" "map_of (latest_finish t) n = Some d"
      and iff: "c = a \<longleftrightarrow> d - b = 0" by blast
    from abcd have w: "window t n = Some (a, b, c, d)" by (simp add: window_def)
    from n nodes have nin: "n \<in> set (map fst (nodes G))" by simp
    have cp: "n \<in> set (critical_path t) \<longleftrightarrow> c = a"
      using nin abcd by (auto simp: cpm_critical_path [OF top run])
    have ca: "map_of (critical_activities t) n = Some (n \<in> set (critical_path t))"
      unfolding cpm_InrD(5) [OF run] using nin by (rule map_of_flag)
    from w cp iff ca show "\<exists>es ef ls lf. window t n = Some (es, ef, ls, lf)
           \<and> (n \<in> set (critical_path t) \<longleftrightarrow> ls = es)
           \<and> (ls = es \<longleftrightarrow> lf - ef = 0)
           \<and> map_of (critical_activities t) n = Some (n \<in> set (critical_path t))" by blast
  qed
  show ?thesis
    apply (rule exI [of _ t])
    apply (intro conjI run A)
    done
qed

lemma tol_topological: "topological tol_graph [''A'', ''B'']"
  by (simp add: topological_def tol_graph_def)

lemma tol_cpm:
  "cpm tol_graph [''A'', ''B''] =
     Inr \<lparr> earliest_start = [(''A'', 0), (''B'', 0)],
           earliest_finish = [(''A'', 1), (''B'', 1 + 1 / 10000000000)],
           latest_start = [(''B'', 0), (''A'', 1 / 10000000000)],
           latest_finish = [(''B'', 1 + 1 / 10000000000), (''A'', 1 + 1 / 10000000000)],
           critical_path = [''B''], critical_activities = [(''A'', False), (''B'', True)],
           total_project_duration = 1 + 1 / 10000000000 \<rparr>"
  by (simp add: cpm_defs tol_graph_def)

text \<open>
  Claim C5 as stated, with the tolerance \<open>1e-9\<close>, fails: with two independent activities
  of durations 1 and \<open>1 + 1e-10\<close>, the slack of A is \<open>1e-10\<close>, within the tolerance, and
  A is not on the critical path.
\<close>

lemma tol_build:
  "read_activity_data tol_rows = Inr raw \<Longrightarrow> fill_defaults (build_graph (derive_all raw)) = tol_graph"
  by (auto simp add: tol_rows_def read_activity_data_def row_activity_def row_predecessors_def
      strip_def isspace_def build_defs tol_graph_def)

theorem tolerance_counterexample:
  "(\<exists>raw. read_activity_data tol_rows = Inr raw
        \<and> fill_defaults (build_graph (derive_all raw)) = tol_graph)
   \<and> topological tol_graph [''A'', ''B'']
   \<and> (\<exists>t. cpm tol_graph [''A'', ''B''] = Inr t
        \<and> window t ''A'' = Some (0, 1, 1 / 10000000000, 1 + 1 / 10000000000)
        \<and> \<bar>(1 + 1 / 10000000000) - (1 :: real)\<bar> \<le> 1 / 1000000000
        \<and> ''A'' \<notin> set (critical_path t))"
proof -
  have "\<exists>raw. read_activity_data tol_rows = Inr raw"
    by (simp add: tol_rows_def read_activity_data_def)
  then obtain raw where raw: "read_activity_data tol_rows = Inr raw" ..
  from raw tol_build [OF raw] have a: "\<exists>raw. read_activity_data tol_rows = Inr raw
        \<and> fill_defaults (build_graph (derive_all raw)) = tol_graph" by blast
  show ?thesis
    apply (intro conjI a tol_topological)
    apply (rule exI, rule conjI, rule tol_cpm)
    apply (simp add: window_def)
    done
qed

text \<open>
  The theorem at the example graph: A and B are critical, C has slack 3 and is not.
\<close>

theorem critical_iff_equal_starts_witness:
  "topological ex_graph [''A'', ''B'', ''C'']
   \<and> (\<exists>t. cpm ex_graph [''A'', ''B'', ''C''] = Inr t
        \<and> critical_path t = [''A'', ''B'']
        \<and> window t ''B'' = Some (2, 6, 2, 6) \<and> window t ''C'' = Some (2, 3, 5, 6)
        \<and> map_of (critical_activities t) ''C'' = Some False)"
proof -
  have ne: "[''A'', ''B'', ''C''] \<noteq> ([] :: string list)" by simp
  from critical_iff_equal_starts [OF ex_topological ne] obtain t where
    run: "cpm ex_graph [''A'', ''B'', ''C''] = Inr t" by blast
  then have t: "t = ex_timing" by (simp add: ex_cpm)
  have v: "critical_path t = [''A'', ''B'']"
    "window t ''B'' = Some (2, 6, 2, 6)" "window t ''C'' = Some (2, 3, 5, 6)"
    "map_of (critical_activities t) ''C'' = Some False"
    by (simp_all add: t ex_timing_def window_def)
  show ?thesis
    apply (rule conjI [OF ex_topological])
    apply (rule exI [of _ t])
    apply (intro conjI run v)
    done
qed

subsection \<open>Building the graph\<close>

lemma map_of_add_missing_node:
  "map_of (add_missing_node n ns) k =
     (case map_of ns k of Some a \<Rightarrow> Some a | None \<Rightarrow> if k = n then Some no_attrs else None)"
  by (auto simp: add_missing_node_def map_add_def map_of_eq_None_iff [symmetric]
      split: option.splits dest: weak_map_of_SomeI)

lemma nodes_add_edge:
  "map_of (nodes (add_edge u v G)) k =
     (case map_of (nodes G) k of Some a \<Rightarrow> Some a
      | None \<Rightarrow> if k = u \<or> k = v then Some no_attrs else None)"
  by (auto simp: add_edge_def map_of_add_missing_node split: option.splits)

lemma edges_add_edge: "set (edges (add_edge u v G)) = insert (u, v) (set (edges G))"
  by (auto simp: add_edge_def)

lemma fold_add_edge_edges:
  "set (edges (fold (\<lambda>p. add_edge p name) ps G)) = set (edges G) \<union> (\<lambda>p. (p, name)) ` set ps"
  by (induction ps arbitrary: G) (auto simp: edges_add_edge)

lemma fold_add_edge_phantom:
  "\<forall>k. k \<notin> S \<longrightarrow> map_of (nodes G) k = None \<or> map_of (nodes G) k = Some no_attrs \<Longrightarrow>
   \<forall>k. k \<notin> S \<longrightarrow> map_of (nodes (fold (\<lambda>p. add_edge p name) ps G)) k = None
                 \<or> map_of (nodes (fold (\<lambda>p. add_edge p name) ps G)) k = Some no_attrs"
proof (induction ps arbitrary: G)
  case Nil
  then show ?case by simp
next
  case (Cons p ps)
  have "\<forall>k. k \<notin> S \<longrightarrow> map_of (nodes (add_edge p name G)) k = None
                 \<or> map_of (nodes (add_edge p name G)) k = Some no_attrs"
    using Cons.prems by (auto simp: nodes_add_edge split: option.splits)
  from Cons.IH [OF this] show ?case by simp
qed

lemma fold_add_edge_sources:
  "\<forall>(u, v)\<in>set (edges G). map_of (nodes G) u \<noteq> None \<Longrightarrow>
   \<forall>(u, v)\<in>set (edges (fold (\<lambda>p. add_edge p name) ps G)).
      map_of (nodes (fold (\<lambda>p. add_edge p name) ps G)) u \<noteq> None"
proof (induction ps arbitrary: G)
  case Nil
  then show ?case by simp
next
  case (Cons p ps)
  have "\<forall>(u, v)\<in>set (edges (add_edge p name G)). map_of (nodes (add_edge p name G)) u \<noteq> None"
    using Cons.prems by (auto simp: nodes_add_edge edges_add_edge split: option.splits)
  from Cons.IH [OF this] show ?case by simp
qed

lemma add_activity_edges:
  "set (edges (add_activity (name, d) G)) = set (edges G) \<union> (\<lambda>p. (p, name)) ` set (predecessors d)"
  by (simp add: add_activity_def fold_add_edge_edges add_node_def)

lemma add_activity_phantom:
  assumes "name \<in> S"
    and "\<forall>k. k \<notin> S \<longrightarrow> map_of (nodes G) k = None \<or> map_of (nodes G) k = Some no_attrs"
  shows "\<forall>k. k \<notin> S \<longrightarrow> map_of (nodes (add_activity (name, d) G)) k = None
                 \<or> map_of (nodes (add_activity (name, d) G)) k = Some no_attrs"
  unfolding add_activity_def prod.case
  by (rule fold_add_edge_phantom) (use assms in \<open>auto simp: add_node_def update_conv'\<close>)

lemma add_activity_sources:
  assumes "\<forall>(u, v)\<in>set (edges G). map_of (nodes G) u \<noteq> None"
  shows "\<forall>(u, v)\<in>set (edges (add_activity (name, d) G)).
           map_of (nodes (add_activity (name, d) G)) u \<noteq> None"
  unfolding add_activity_def prod.case
  by (rule fold_add_edge_sources) (use assms in \<open>auto simp: add_node_def update_conv'\<close>)

lemma fold_add_activity:
  assumes "fst ` set acts \<subseteq> S"
    and "\<forall>k. k \<notin> S \<longrightarrow> map_of (nodes G) k = None \<or> map_of (nodes G) k = Some no_attrs"
    and "\<forall>(u, v)\<in>set (edges G). map_of (nodes G) u \<noteq> None"
  shows "(\<forall>k. k \<notin> S \<longrightarrow> map_of (nodes (fold add_activity acts G)) k = None
                 \<or> map_of (nodes (fold add_activity acts G)) k = Some no_attrs)
       \<and> (\<forall>(u, v)\<in>set (edges (fold add_activity acts G)).
             map_of (nodes (fold add_activity acts G)) u \<noteq> None)
       \<and> set (edges (fold add_activity acts G))
           = set (edges G) \<union> {(p, name) | p name d. (name, d) \<in> set acts \<and> p \<in> set (predecessors d)}"
  using assms
proof (induction acts arbitrary: G)
  case Nil
  then show ?case by simp
next
  case (Cons x acts)
  obtain name d where x: "x = (name, d)" by (cases x)
  from Cons.prems(1) x have nS: "name \<in> S" and sub: "fst ` set acts \<subseteq> S" by auto
  note ph = add_activity_phantom [OF nS Cons.prems(2), of d]
  note so = add_activity_sources [OF Cons.prems(3), of name d]
  from Cons.IH [OF sub ph so] show ?case
    by (simp add: x add_activity_edges) blast
qed

lemma build_graph_facts:
  "(\<forall>k. k \<notin> fst ` set activities \<longrightarrow> map_of (nodes (build_graph activities)) k = None
                 \<or> map_of (nodes (build_graph activities)) k = Some no_attrs)
   \<and> (\<forall>(u, v)\<in>set (edges (build_graph activities)).
             map_of (nodes (build_graph activities)) u \<noteq> None)
   \<and> set (edges (build_graph activities))
           = {(p, name) | p name d. (name, d) \<in> set activities \<and> p \<in> set (predecessors d)}"
  using fold_add_activity [of activities "fst ` set activities" "\<lparr> nodes = [], edges = [] \<rparr>"]
  by (simp add: build_graph_def)

lemma map_of_fill_defaults:
  "map_of (nodes (fill_defaults G)) k =
     map_option (\<lambda>a. \<lparr> duration = or_zero (attr_duration a),
                        node_variance = or_zero (attr_variance a),
                        node_std_dev = or_zero (attr_std_dev a) \<rparr>) (map_of (nodes G) k)"
  unfolding fill_defaults_def by (induction "nodes G" arbitrary: G) (auto simp: map_of_map)


text \<open>
  Claim C7, as the script does it. Building the graph never fails. A predecessor name that
  is no activity becomes a node of the graph, with an edge to the activity that names it
  and with duration, variance and standard deviation 0, the defaults of lines 57 to 63. It
  has no predecessor itself, and for every topological order of the graph the timing is
  computed and starts and finishes that node at 0.
\<close>

theorem missing_predecessor_becomes_node:
  assumes act: "(name, a) \<in> set activities" and p: "p \<in> set (predecessors a)"
    and missing: "p \<notin> fst ` set activities"
  shows "map_of (nodes (fill_defaults (build_graph activities))) p
           = Some \<lparr> duration = 0, node_variance = 0, node_std_dev = 0 \<rparr>
       \<and> (p, name) \<in> set (edges (fill_defaults (build_graph activities)))
       \<and> (\<forall>u. (u, p) \<notin> set (edges (fill_defaults (build_graph activities))))
       \<and> (\<forall>order. topological (fill_defaults (build_graph activities)) order \<longrightarrow>
            (\<exists>t. cpm (fill_defaults (build_graph activities)) order = Inr t
               \<and> map_of (earliest_start t) p = Some 0
               \<and> map_of (earliest_finish t) p = Some 0))"
proof -
  let ?B = "build_graph activities"
  let ?G = "fill_defaults ?B"
  note facts = build_graph_facts [of activities]
  from facts have ph: "map_of (nodes ?B) p = None \<or> map_of (nodes ?B) p = Some no_attrs"
    using missing by blast
  from facts have es: "set (edges ?B)
      = {(p, name) | p name d. (name, d) \<in> set activities \<and> p \<in> set (predecessors d)}"
    by blast
  from es act p have e0: "(p, name) \<in> set (edges ?B)" by blast
  from facts e0 have "map_of (nodes ?B) p \<noteq> None" by blast
  with ph have "map_of (nodes ?B) p = Some no_attrs" by simp
  then have node: "map_of (nodes ?G) p = Some \<lparr> duration = 0, node_variance = 0, node_std_dev = 0 \<rparr>"
    by (simp add: map_of_fill_defaults no_attrs_def or_zero_def)
  have eG: "edges ?G = edges ?B" by (simp add: fill_defaults_def)
  from e0 have edge: "(p, name) \<in> set (edges ?G)" by (simp add: eG)
  have nopred: "G_predecessors ?G p = []"
  proof (rule ccontr)
    assume "G_predecessors ?G p \<noteq> []"
    then obtain u where "u \<in> set (G_predecessors ?G p)" by (cases "G_predecessors ?G p") auto
    then have "(u, p) \<in> set (edges ?B)" by (simp add: in_G_predecessors eG)
    with es obtain d where "(p, d) \<in> set activities" by blast
    then have "p \<in> fst ` set activities" by force
    with missing show False by simp
  qed
  have sched: "\<forall>order. topological ?G order \<longrightarrow>
            (\<exists>t. cpm ?G order = Inr t \<and> map_of (earliest_start t) p = Some 0
               \<and> map_of (earliest_finish t) p = Some 0)"
  proof (intro allI impI)
    fix order assume top: "topological ?G order"
    from node have "p \<in> fst ` set (nodes ?G)" by (auto dest: map_of_SomeD intro: rev_image_eqI)
    with top have pin: "p \<in> set order" by (simp add: topological_def)
    then have ne: "order \<noteq> []" by auto
    from cpm_exists [OF top ne] obtain t where run: "cpm ?G order = Inr t" ..
    from cpm_node [OF top run pin] node nopred
    have "map_of (earliest_start t) p = Some 0" "map_of (earliest_finish t) p = Some 0"
      by (auto simp: max_default_def)
    with run show "\<exists>t. cpm ?G order = Inr t \<and> map_of (earliest_start t) p = Some 0
               \<and> map_of (earliest_finish t) p = Some 0" by blast
  qed
  have noedge: "\<forall>u. (u, p) \<notin> set (edges ?G)"
  proof
    fix u
    from nopred have "u \<notin> set (G_predecessors ?G p)" by simp
    then show "(u, p) \<notin> set (edges ?G)" by (simp add: in_G_predecessors)
  qed
  from node edge noedge sched show ?thesis by (intro conjI)
qed

lemma lone_read:
  "read_activity_data lone_rows
     = Inr [(''B'', \<lparr> optimistic = 2, most_likely = 4, pessimistic = 6, predecessors = [''A''] \<rparr>)]"
  by (simp add: lone_rows_def ingest_defs)

lemma lone_derive:
  "derive_all [(''B'', \<lparr> optimistic = 2, most_likely = 4, pessimistic = 6, predecessors = [''A''] \<rparr>)]
     = lone_activities"
  by (simp add: derive_all_def derive_explicit lone_activities_def power2_eq_square)

lemma lone_build: "fill_defaults (build_graph lone_activities) = lone_graph"
  by (simp add: lone_activities_def lone_graph_def build_graph_def add_activity_def add_node_def
      add_edge_def add_missing_node_def no_attrs_def fill_defaults_def or_zero_def)

lemma lone_topological: "topological lone_graph [''A'', ''B'']"
  by (auto simp: topological_def lone_graph_def)

lemma lone_cpm:
  "cpm lone_graph [''A'', ''B''] =
     Inr \<lparr> earliest_start = [(''A'', 0), (''B'', 0)], earliest_finish = [(''A'', 0), (''B'', 4)],
           latest_start = [(''B'', 0), (''A'', 0)], latest_finish = [(''B'', 4), (''A'', 0)],
           critical_path = [''B'', ''A''], critical_activities = [(''B'', True), (''A'', True)],
           total_project_duration = 4 \<rparr>"
  by (simp add: cpm_defs lone_graph_def)

text \<open>
  Claim C7 as stated fails: no \<open>ReferenceError\<close> is raised. With the single activity B
  (2, 4, 6) after A, where A is no activity, the graph is built with A as a node of
  duration 0 and the edge from A to B, and B is scheduled from 0 to 4.
\<close>

theorem no_reference_error_counterexample:
  "(\<exists>raw. read_activity_data lone_rows = Inr raw \<and> ''A'' \<notin> fst ` set raw
        \<and> fill_defaults (build_graph (derive_all raw)) = lone_graph)
   \<and> map_of (nodes lone_graph) ''A''
       = Some \<lparr> duration = 0, node_variance = 0, node_std_dev = 0 \<rparr>
   \<and> edges lone_graph = [(''A'', ''B'')]
   \<and> (\<exists>t. cpm lone_graph [''A'', ''B''] = Inr t \<and> window t ''B'' = Some (0, 4, 0, 4))"
proof -
  have a: "\<exists>raw. read_activity_data lone_rows = Inr raw \<and> ''A'' \<notin> fst ` set raw
        \<and> fill_defaults (build_graph (derive_all raw)) = lone_graph"
    apply (rule exI, rule conjI, rule lone_read)
    apply (simp add: lone_derive lone_build)
    done
  have b: "map_of (nodes lone_graph) ''A''
       = Some \<lparr> duration = 0, node_variance = 0, node_std_dev = 0 \<rparr>"
    "edges lone_graph = [(''A'', ''B'')]"
    by (simp_all add: lone_graph_def)
  have c: "\<exists>t. cpm lone_graph [''A'', ''B''] = Inr t \<and> window t ''B'' = Some (0, 4, 0, 4)"
    apply (rule exI, rule conjI, rule lone_cpm)
    apply (simp add: window_def)
    done
  from a b c show ?thesis by (intro conjI)
qed

text \<open>
  The theorem at that store.
\<close>

theorem missing_predecessor_becomes_node_witness:
  "(''B'', snd (hd lone_activities)) \<in> set lone_activities
   \<and> ''A'' \<in> set (predecessors (snd (hd lone_activities)))
   \<and> ''A'' \<notin> fst ` set lone_activities
   \<and> map_of (nodes (fill_defaults (build_graph lone_activities))) ''A''
       = Some \<lparr> duration = 0, node_variance = 0, node_std_dev = 0 \<rparr>
   \<and> (''A'', ''B'') \<in> set (edges (fill_defaults (build_graph lone_activities)))
   \<and> topological (fill_defaults (build_graph lone_activities)) [''A'', ''B'']
   \<and> (\<exists>t. cpm (fill_defaults (build_graph lone_activities)) [''A'', ''B''] = Inr t
         \<and> map_of (earliest_start t) ''A'' = Some 0
         \<and> map_of (earliest_finish t) ''A'' = Some 0)"
proof -
  have h1: "(''B'', snd (hd lone_activities)) \<in> set lone_activities"
    and h2: "''A'' \<in> set (predecessors (snd (hd lone_activities)))"
    and h3: "''A'' \<notin> fst ` set lone_activities"
    by (simp_all add: lone_activities_def)
  have top: "topological (fill_defaults (build_graph lone_activities)) [''A'', ''B'']"
    by (simp only: lone_build lone_topological)
  note inst = missing_predecessor_becomes_node [OF h1 h2 h3]
  note n = inst [THEN conjunct1]
  note e = inst [THEN conjunct2, THEN conjunct1]
  note s = inst [THEN conjunct2, THEN conjunct2, THEN conjunct2]
  from s [rule_format, OF top] have c: "\<exists>t. cpm (fill_defaults (build_graph lone_activities)) [''A'', ''B''] = Inr t
         \<and> map_of (earliest_start t) ''A'' = Some 0
         \<and> map_of (earliest_finish t) ''A'' = Some 0" .
  from h1 h2 h3 n e top c show ?thesis by (intro conjI)
qed

subsection \<open>The whole script on the example\<close>

lemma ex_read:
  "read_activity_data ex_rows =
     Inr [(''A'', \<lparr> optimistic = 1, most_likely = 2, pessimistic = 3, predecessors = [] \<rparr>),
          (''B'', \<lparr> optimistic = 2, most_likely = 4, pessimistic = 6, predecessors = [''A''] \<rparr>),
          (''C'', \<lparr> optimistic = 1, most_likely = 1, pessimistic = 1, predecessors = [''A''] \<rparr>)]"
  by (simp add: ex_rows_def ingest_defs)

lemma ex_derive:
  "derive_all
     [(''A'', \<lparr> optimistic = 1, most_likely = 2, pessimistic = 3, predecessors = [] \<rparr>),
      (''B'', \<lparr> optimistic = 2, most_likely = 4, pessimistic = 6, predecessors = [''A''] \<rparr>),
      (''C'', \<lparr> optimistic = 1, most_likely = 1, pessimistic = 1, predecessors = [''A''] \<rparr>)]
   = ex_activities"
  by (simp add: derive_all_def derive_explicit ex_activities_def power2_eq_square)

lemma ex_build: "fill_defaults (build_graph ex_activities) = ex_graph"
  by (simp add: ex_activities_def ex_graph_def build_graph_def add_activity_def add_node_def
      add_edge_def add_missing_node_def no_attrs_def fill_defaults_def or_zero_def)

lemma ex_cpm_table:
  "\<exists>table. cpm_table_data ex_activities ex_timing (map fst (nodes ex_graph)) = Inr table"
  by (simp add: ex_activities_def ex_timing_def ex_graph_def)

lemma ex_pert:
  "pert_table_data total_standard_deviation cdf ex_timing ex_activities
     = Inl (NameError ''total_standard_deviation'')"
  by (simp add: ex_activities_def total_standard_deviation_def)

text \<open>
  Claim C6 fails on the script. The claim wants the total standard deviation computed as the
  square root of the sum of the variances of the critical nodes, and a z-score and a
  probability for every activity. On the three example activities, whose critical path is
  A, B with variances \<open>1/9\<close> and \<open>4/9\<close>, the script reads its rows, builds the graph,
  computes the timing and the CPM table, and then raises \<open>NameError\<close> on the first row
  of the PERT table: nothing computes \<open>total_standard_deviation\<close>.
\<close>

theorem main_raises_NameError:
  "main (\<lambda>G. Inr [''A'', ''B'', ''C'']) cdf ex_rows = Inl (NameError ''total_standard_deviation'')"
proof -
  from ex_cpm_table obtain table where
    tb: "cpm_table_data ex_activities ex_timing (map fst (nodes ex_graph)) = Inr table" ..
  show ?thesis
    by (simp add: main_def ex_read ex_derive ex_build ex_cpm tb ex_pert Let_def)
qed

text \<open>
  The same run with a fixed function in place of the distribution function.
\<close>

theorem main_raises_NameError_witness:
  "main (\<lambda>G. Inr [''A'', ''B'', ''C'']) (\<lambda>z. 1 / 2) ex_rows
     = Inl (NameError ''total_standard_deviation'')
   \<and> critical_path ex_timing = [''A'', ''B'']
   \<and> 0 < variance (snd (hd ex_activities))"
  using main_raises_NameError [of "\<lambda>z. 1 / 2"]
  by (simp add: ex_timing_def ex_activities_def)

end
